theory Spec2Isabelle
  imports Main "HOL-Library.Char_ord" "HOL-Library.List_Lexorder"
begin

section \<open>The Aho-Corasick automaton of FailureLinks.py\<close>

text \<open>
  Python objects are mutable and compared by identity, so the nodes live in an explicit
  store: a list of node values, a node's address being its index. \<open>TrieNode()\<close>
  allocates at the end of the store. A \<open>children\<close> dictionary is an association
  list in insertion order, which is the order Python iterates it in.
\<close>

record TrieNode =
  children :: "(char \<times> nat) list"
  is_end :: bool
  failure :: "nat option"
  "output" :: "string list"
  node_id :: "int option"

type_synonym heap = "TrieNode list"

record AhoCorasick =
  root :: nat
  node_counter :: int

datatype error = AttributeError

definition new_TrieNode :: TrieNode where
  "new_TrieNode =
     \<lparr>children = [], is_end = False, failure = None, output = [], node_id = None\<rparr>"

text \<open>\<open>AhoCorasick.__init__\<close>: allocate the root, point its failure at itself, number it 0.\<close>

definition init :: "heap \<Rightarrow> heap \<times> AhoCorasick" where
  "init h =
     (let r = length h;
          h1 = h @ [new_TrieNode];
          h2 = h1[r := (h1 ! r)\<lparr>failure := Some r\<rparr>];
          counter = 0;
          h3 = h2[r := (h2 ! r)\<lparr>node_id := Some counter\<rparr>]
      in (h3, \<lparr>root = r, node_counter = counter + 1\<rparr>))"

text \<open>The \<open>for char in pattern\<close> loop of \<open>add_pattern\<close>; it returns the store, the
  counter and the node reached.\<close>

fun add_loop :: "heap \<Rightarrow> int \<Rightarrow> nat \<Rightarrow> string \<Rightarrow> heap \<times> int \<times> nat" where
  "add_loop h cnt node [] = (h, cnt, node)"
| "add_loop h cnt node (c # cs) =
     (case map_of (children (h ! node)) c of
        None \<Rightarrow>
          (let a = length h;
               h1 = h @ [new_TrieNode];
               h2 = h1[node := (h1 ! node)\<lparr>children := children (h1 ! node) @ [(c, a)]\<rparr>];
               h3 = h2[a := (h2 ! a)\<lparr>node_id := Some cnt\<rparr>]
           in add_loop h3 (cnt + 1) a cs)
      | Some a \<Rightarrow> add_loop h cnt a cs)"

definition add_pattern :: "heap \<Rightarrow> AhoCorasick \<Rightarrow> string \<Rightarrow> heap \<times> AhoCorasick" where
  "add_pattern h ac pattern =
     (case add_loop h (node_counter ac) (root ac) pattern of
        (h1, cnt, node) \<Rightarrow>
          (let h2 = h1[node := (h1 ! node)\<lparr>is_end := True\<rparr>];
               h3 = h2[node := (h2 ! node)\<lparr>output := output (h2 ! node) @ [pattern]\<rparr>]
           in (h3, ac\<lparr>node_counter := cnt\<rparr>)))"

text \<open>The first loop of \<open>build_failure_links\<close>, over the root's children.\<close>

fun init_queue :: "heap \<Rightarrow> nat \<Rightarrow> nat list \<Rightarrow> (char \<times> nat) list \<Rightarrow> heap \<times> nat list" where
  "init_queue h r q [] = (h, q)"
| "init_queue h r q ((c, child) # rest) =
     init_queue (h[child := (h ! child)\<lparr>failure := Some r\<rparr>]) r (q @ [child]) rest"

text \<open>The inner \<open>while\<close> loop: follow failure links until the root or a node with a
  transition for the character. Reading \<open>.children\<close> of \<open>None\<close> raises.\<close>

partial_function (option) follow :: "nat option \<Rightarrow> heap \<Rightarrow> nat \<Rightarrow> char \<Rightarrow> (error + nat) option" where
  "follow failure_node h r c =
     (case failure_node of
        None \<Rightarrow> Some (Inl AttributeError)
      | Some f \<Rightarrow>
          if f \<noteq> r \<and> map_of (children (h ! f)) c = None
          then follow (failure (h ! f)) h r c
          else Some (Inr f))"

declare follow.simps [code]

text \<open>The failure target chosen after the loop.\<close>

definition failure_target :: "heap \<Rightarrow> nat \<Rightarrow> char \<Rightarrow> nat \<Rightarrow> nat \<Rightarrow> nat" where
  "failure_target h r c child f =
     (case map_of (children (h ! f)) c of
        Some x \<Rightarrow> if x \<noteq> child then x else r
      | None \<Rightarrow> r)"

text \<open>The body of \<open>for char, child in current.children.items()\<close>.\<close>

fun for_children ::
  "heap \<Rightarrow> nat \<Rightarrow> nat list \<Rightarrow> nat \<Rightarrow> (char \<times> nat) list \<Rightarrow> (error + heap \<times> nat list) option" where
  "for_children h r q current [] = Some (Inr (h, q))"
| "for_children h r q current ((c, child) # rest) =
     (case follow (failure (h ! current)) h r c of
        None \<Rightarrow> None
      | Some (Inl e) \<Rightarrow> Some (Inl e)
      | Some (Inr f) \<Rightarrow>
          (let t = failure_target h r c child f;
               h1 = h[child := (h ! child)\<lparr>failure := Some t\<rparr>];
               h2 = h1[child := (h1 ! child)\<lparr>output := output (h1 ! child) @ output (h1 ! t)\<rparr>]
           in for_children h2 r (q @ [child]) current rest))"

text \<open>The \<open>while queue\<close> loop.\<close>

partial_function (option) bfs :: "heap \<Rightarrow> nat \<Rightarrow> nat list \<Rightarrow> (error + heap) option" where
  "bfs h r queue =
     (case queue of
        [] \<Rightarrow> Some (Inr h)
      | current # q \<Rightarrow>
          (case for_children h r q current (children (h ! current)) of
             None \<Rightarrow> None
           | Some (Inl e) \<Rightarrow> Some (Inl e)
           | Some (Inr (h1, q1)) \<Rightarrow> bfs h1 r q1))"

declare bfs.simps [code]

definition build_failure_links :: "heap \<Rightarrow> AhoCorasick \<Rightarrow> (error + heap) option" where
  "build_failure_links h ac =
     (case init_queue h (root ac) [] (children (h ! root ac)) of
        (h1, queue) \<Rightarrow> bfs h1 (root ac) queue)"

text \<open>The driver's loop \<open>for pattern in unique_keywords: ac.add_pattern(pattern)\<close>.\<close>

fun add_patterns :: "heap \<Rightarrow> AhoCorasick \<Rightarrow> string list \<Rightarrow> heap \<times> AhoCorasick" where
  "add_patterns h ac [] = (h, ac)"
| "add_patterns h ac (p # ps) =
     (case add_pattern h ac p of (h1, ac1) \<Rightarrow> add_patterns h1 ac1 ps)"

subsection \<open>Introspection\<close>

text \<open>A \<open>for\<close> loop that returns the first result that is not \<open>None\<close>; the body may
  fail to return.\<close>

primrec first_result :: "('a \<Rightarrow> 'b option option) \<Rightarrow> 'a list \<Rightarrow> 'b option option" where
  "first_result f [] = Some None"
| "first_result f (x # xs) =
     Option.bind (f x) (\<lambda>res. case res of None \<Rightarrow> first_result f xs | Some p \<Rightarrow> Some (Some p))"

lemma first_result_mono [partial_function_mono]:
  assumes "\<And>x. mono_option (\<lambda>f. F f x)"
  shows "mono_option (\<lambda>f. first_result (F f) xs)"
proof (induction xs)
  case Nil
  show ?case by (simp add: option.const_mono)
next
  case (Cons x xs)
  have "mono_option (\<lambda>f. case res of None \<Rightarrow> first_result (F f) xs | Some p \<Rightarrow> Some (Some p))"
    for res
    by (cases res) (simp_all add: Cons.IH option.const_mono)
  then show ?case
    using assms by (simp add: bind_mono)
qed

text \<open>The nested \<open>find_path\<close> of \<open>get_path_to_node\<close>.\<close>

partial_function (option) find_path :: "heap \<Rightarrow> nat \<Rightarrow> nat \<Rightarrow> string \<Rightarrow> string option option" where
  "find_path h target_node node path =
     (if node = target_node then Some (Some path)
      else first_result (\<lambda>x. find_path h target_node (snd x) (path @ [fst x]))
             (children (h ! node)))"

declare find_path.simps [code]

text \<open>\<open>find_path(self.root) or "UNKNOWN"\<close>: \<open>None\<close> and the empty string are both falsy.\<close>

definition get_path_to_node :: "heap \<Rightarrow> AhoCorasick \<Rightarrow> nat \<Rightarrow> string option" where
  "get_path_to_node h ac target_node =
     (if target_node = root ac then Some ''ROOT''
      else Option.bind (find_path h target_node (root ac) [])
             (\<lambda>res. case res of
                      None \<Rightarrow> Some ''UNKNOWN''
                    | Some p \<Rightarrow> if p = [] then Some ''UNKNOWN'' else Some p))"

record link =
  link_node_id :: "int option"
  link_path :: string
  link_failure_node_id :: "int option"
  link_failure_path :: string
  link_is_end :: bool
  link_output :: "string list"

text \<open>A \<open>for\<close> loop that threads a state through a body that may fail to return.\<close>

primrec for_each :: "('a \<Rightarrow> 's \<Rightarrow> 's option) \<Rightarrow> 'a list \<Rightarrow> 's \<Rightarrow> 's option" where
  "for_each f [] s = Some s"
| "for_each f (x # xs) s = Option.bind (f x s) (for_each f xs)"

lemma for_each_mono [partial_function_mono]:
  assumes "\<And>x s. mono_option (\<lambda>f. F f x s)"
  shows "mono_option (\<lambda>f. for_each (F f) xs s)"
proof (induction xs arbitrary: s)
  case Nil
  show ?case by (simp add: option.const_mono)
next
  case (Cons x xs)
  show ?case
    using assms Cons.IH by (simp add: bind_mono)
qed

text \<open>The record \<open>traverse\<close> appends for a node.\<close>

definition link_of :: "heap \<Rightarrow> nat \<Rightarrow> string \<Rightarrow> string \<Rightarrow> link" where
  "link_of h node path failure_path =
     \<lparr>link_node_id = node_id (h ! node),
      link_path = (if path \<noteq> [] then path else ''ROOT''),
      link_failure_node_id =
        (case failure (h ! node) of Some f \<Rightarrow> node_id (h ! f) | None \<Rightarrow> None),
      link_failure_path = failure_path,
      link_is_end = is_end (h ! node),
      link_output = output (h ! node)\<rparr>"

text \<open>The nested \<open>traverse\<close> of \<open>get_failure_links_representation\<close>; \<open>result\<close> is
  the list it appends to.\<close>

partial_function (option) traverse ::
  "heap \<Rightarrow> AhoCorasick \<Rightarrow> nat \<Rightarrow> string \<Rightarrow> link list \<Rightarrow> link list option" where
  "traverse h ac node path result =
     Option.bind
       (if node_id (h ! node) \<noteq> None
        then Option.bind
               (case failure (h ! node) of
                  Some f \<Rightarrow> get_path_to_node h ac f
                | None \<Rightarrow> Some ''None'')
               (\<lambda>failure_path. Some (result @ [link_of h node path failure_path]))
        else Some result)
       (for_each (\<lambda>x res. traverse h ac (snd x) (path @ [fst x]) res)
          (sort_key fst (children (h ! node))))"

declare traverse.simps [code]

definition get_failure_links_representation :: "heap \<Rightarrow> AhoCorasick \<Rightarrow> link list option" where
  "get_failure_links_representation h ac = traverse h ac (root ac) [] []"

subsection \<open>The driver script and trie positions\<close>

text \<open>The script's sequence: create the automaton, add every pattern, build the failure
  links. The initial store \<open>h0\<close> holds whatever objects exist already.\<close>

definition build_automaton :: "heap \<Rightarrow> string list \<Rightarrow> (error + heap \<times> AhoCorasick) option" where
  "build_automaton h0 ps =
     (case init h0 of
        (h, ac) \<Rightarrow>
          (case add_patterns h ac ps of
             (h1, ac1) \<Rightarrow>
               (case build_failure_links h1 ac1 of
                  None \<Rightarrow> None
                | Some (Inl e) \<Rightarrow> Some (Inl e)
                | Some (Inr h2) \<Rightarrow> Some (Inr (h2, ac1)))))"

text \<open>The node reached from \<open>node\<close> by following the trie edges labelled by a string.\<close>

fun walk :: "heap \<Rightarrow> nat \<Rightarrow> string \<Rightarrow> nat option" where
  "walk h node [] = Some node"
| "walk h node (c # cs) =
     (case map_of (children (h ! node)) c of
        None \<Rightarrow> None
      | Some child \<Rightarrow> walk h child cs)"

section \<open>Invariants of the store\<close>

text \<open>
  The tries that \<open>add_pattern\<close> builds are described by a set \<open>S\<close> of addresses
  (the nodes of the trie) and a function \<open>pth\<close> giving each node its string from the
  root: the root has the empty string, a child's string is its parent's extended by the
  edge label, different nodes have different strings, the keys of a \<open>children\<close>
  dictionary are distinct, and every node but the root is somebody's child. The
  predicates after it describe the store while \<open>build_failure_links\<close> runs, relative
  to the store \<open>h0\<close> it started from and the set \<open>G\<close> of nodes already linked.
\<close>

text \<open>The shape of a trie: \<open>S\<close> is the set of its nodes and \<open>pth\<close> gives each node its string.\<close>

definition trie_inv :: "heap \<Rightarrow> nat \<Rightarrow> nat set \<Rightarrow> (nat \<Rightarrow> string) \<Rightarrow> bool" where
  "trie_inv h r S pth \<longleftrightarrow>
     finite S \<and> r \<in> S \<and> pth r = [] \<and> (\<forall>a\<in>S. a < length h) \<and> inj_on pth S \<and>
     (\<forall>a\<in>S. distinct (map fst (children (h ! a)))) \<and>
     (\<forall>a\<in>S. \<forall>c b. (c, b) \<in> set (children (h ! a)) \<longrightarrow> b \<in> S \<and> pth b = pth a @ [c]) \<and>
     (\<forall>b\<in>S. b \<noteq> r \<longrightarrow> (\<exists>a\<in>S. \<exists>c. (c, b) \<in> set (children (h ! a)))) \<and>
     (\<forall>a\<in>S. node_id (h ! a) \<noteq> None)"

text \<open>The store after \<open>add_pattern\<close> has created a child of \<open>node\<close> for the character \<open>c\<close>.\<close>

definition add_node :: "heap \<Rightarrow> int \<Rightarrow> nat \<Rightarrow> char \<Rightarrow> heap" where
  "add_node h cnt node c =
     h[node := (h ! node)\<lparr>children := children (h ! node) @ [(c, length h)]\<rparr>]
       @ [new_TrieNode\<lparr>node_id := Some cnt\<rparr>]"

text \<open>The store holds a trie rooted at \<open>r\<close>.\<close>

definition is_trie :: "heap \<Rightarrow> nat \<Rightarrow> bool" where
  "is_trie h r \<longleftrightarrow> (\<exists>S pth. trie_inv h r S pth)"

text \<open>The store after one round of the inner loop of \<open>build_failure_links\<close>: the child \<open>x\<close> has the failure node \<open>t\<close> and its output extended by that of \<open>t\<close>.\<close>

definition link_child :: "heap \<Rightarrow> nat \<Rightarrow> nat \<Rightarrow> heap" where
  "link_child h x t = h[x := (h ! x)\<lparr>failure := Some t, output := output (h ! x) @ output (h ! t)\<rparr>]"

text \<open>What \<open>build_failure_links\<close> never writes: children, terminal flags, node ids, and the nodes outside the trie.\<close>

definition frame_inv :: "heap \<Rightarrow> heap \<Rightarrow> nat set \<Rightarrow> bool" where
  "frame_inv h0 h S \<longleftrightarrow>
     map children h = map children h0 \<and> map is_end h = map is_end h0 \<and>
     map node_id h = map node_id h0 \<and> (\<forall>a<length h. a \<notin> S \<longrightarrow> h ! a = h0 ! a)"

text \<open>The nodes in \<open>G\<close> are linked: each has a failure node in the trie with a shorter string. \<open>G\<close> holds every node of depth at most \<open>k\<close> and none deeper than \<open>k + 1\<close>.\<close>

definition links_inv :: "heap \<Rightarrow> nat \<Rightarrow> nat set \<Rightarrow> (nat \<Rightarrow> string) \<Rightarrow> nat \<Rightarrow> nat set \<Rightarrow> bool" where
  "links_inv h r S pth k G \<longleftrightarrow>
     failure (h ! r) = Some r \<and> G \<subseteq> S - {r} \<and>
     (\<forall>n\<in>S. n \<noteq> r \<and> length (pth n) \<le> k \<longrightarrow> n \<in> G) \<and>
     (\<forall>n\<in>G. length (pth n) \<le> Suc k) \<and>
     (\<forall>n\<in>G. \<exists>f\<in>S. failure (h ! n) = Some f \<and> length (pth f) < length (pth n))"

text \<open>The failure link of every linked node is the one the loop computes from the parent's failure node in the present store.\<close>

definition step_inv :: "heap \<Rightarrow> nat \<Rightarrow> nat set \<Rightarrow> nat set \<Rightarrow> bool" where
  "step_inv h r S G \<longleftrightarrow>
     (\<forall>p\<in>S. \<forall>c n. (c, n) \<in> set (children (h ! p)) \<and> n \<in> G \<longrightarrow>
        (if p = r then failure (h ! n) = Some r
         else \<exists>cand. follow (failure (h ! p)) h r c = Some (Inr cand) \<and>
                failure (h ! n) = Some (failure_target h r c n cand)))"

text \<open>The output of a linked node of depth two or more is its output at the start followed by the output of its failure node; every other output is as at the start.\<close>

definition out_inv :: "heap \<Rightarrow> heap \<Rightarrow> nat set \<Rightarrow> (nat \<Rightarrow> string) \<Rightarrow> nat set \<Rightarrow> bool" where
  "out_inv h0 h S pth G \<longleftrightarrow>
     (\<forall>n\<in>S. output (h ! n) =
        output (h0 ! n) @
        (if n \<in> G \<and> 2 \<le> length (pth n)
         then (case failure (h ! n) of Some f \<Rightarrow> output (h ! f) | None \<Rightarrow> [])
         else []))"

text \<open>The invariant of the breadth-first loop.\<close>

definition bfs_inv ::
  "heap \<Rightarrow> heap \<Rightarrow> nat \<Rightarrow> nat set \<Rightarrow> (nat \<Rightarrow> string) \<Rightarrow> nat \<Rightarrow> nat set \<Rightarrow> bool" where
  "bfs_inv h0 h r S pth k G \<longleftrightarrow>
     trie_inv h r S pth \<and> frame_inv h0 h S \<and> links_inv h r S pth k G \<and>
     step_inv h r S G \<and> out_inv h0 h S pth G"

text \<open>The fields of the nodes that existed before are unchanged, except for \<open>children\<close>.\<close>

definition same_fields :: "heap \<Rightarrow> heap \<Rightarrow> bool" where
  "same_fields h h' \<longleftrightarrow>
     length h \<le> length h' \<and>
     (\<forall>a<length h. is_end (h' ! a) = is_end (h ! a) \<and> failure (h' ! a) = failure (h ! a) \<and>
        output (h' ! a) = output (h ! a) \<and> node_id (h' ! a) = node_id (h ! a))"

text \<open>The store holds a trie whose root is its own failure node.\<close>

definition root_ok :: "heap \<Rightarrow> nat \<Rightarrow> bool" where
  "root_ok h r \<longleftrightarrow> is_trie h r \<and> failure (h ! r) = Some r"

text \<open>Every node of the trie is linked.\<close>

definition all_links :: "heap \<Rightarrow> nat \<Rightarrow> nat set \<Rightarrow> (nat \<Rightarrow> string) \<Rightarrow> bool" where
  "all_links h r S pth \<longleftrightarrow>
     failure (h ! r) = Some r \<and>
     (\<forall>n\<in>S. n \<noteq> r \<longrightarrow> (\<exists>f\<in>S. failure (h ! n) = Some f \<and> length (pth f) < length (pth n)))"

text \<open>Two stores with the same children, terminal flags and node ids, node for node.\<close>

definition shape_eq :: "heap \<Rightarrow> heap \<Rightarrow> bool" where
  "shape_eq h h' \<longleftrightarrow>
     map children h' = map children h \<and> map is_end h' = map is_end h \<and>
     map node_id h' = map node_id h"

text \<open>The rule of the specification, in its words: the candidate starts at the parent's
  failure node and advances along failure links while it is not the root and has no child
  for the character.\<close>

inductive spec_candidate :: "heap \<Rightarrow> nat \<Rightarrow> char \<Rightarrow> nat \<Rightarrow> nat \<Rightarrow> bool"
  for h :: heap and r :: nat and c :: char where
  stop: "candidate = r \<or> map_of (children (h ! candidate)) c \<noteq> None \<Longrightarrow>
         spec_candidate h r c candidate candidate"
| advance: "candidate \<noteq> r \<Longrightarrow> map_of (children (h ! candidate)) c = None \<Longrightarrow>
         failure (h ! candidate) = Some next_candidate \<Longrightarrow>
         spec_candidate h r c next_candidate result \<Longrightarrow>
         spec_candidate h r c candidate result"

text \<open>The specification's choice after the loop: the candidate's child for the character
  if the candidate has one and it is not the child itself, the root otherwise.\<close>

definition spec_failure :: "heap \<Rightarrow> nat \<Rightarrow> char \<Rightarrow> nat \<Rightarrow> nat \<Rightarrow> nat" where
  "spec_failure h r c child candidate =
     (if map_of (children (h ! candidate)) c \<noteq> None \<and>
         map_of (children (h ! candidate)) c \<noteq> Some child
      then the (map_of (children (h ! candidate)) c)
      else r)"

text \<open>The order of the specification, in its words: depth-first from a node, the node
  first, then its children in sorted-by-character order, each with its whole subtree.\<close>

inductive dfs_paths :: "heap \<Rightarrow> nat \<Rightarrow> string \<Rightarrow> string list \<Rightarrow> bool"
  and dfs_children :: "heap \<Rightarrow> string \<Rightarrow> (char \<times> nat) list \<Rightarrow> string list \<Rightarrow> bool"
  for h :: heap where
  visit: "dfs_children h path (sort_key fst (children (h ! node))) rest \<Longrightarrow>
          dfs_paths h node path (path # rest)"
| no_child: "dfs_children h path [] []"
| next_child: "dfs_paths h child (path @ [c]) xs \<Longrightarrow> dfs_children h path ks ys \<Longrightarrow>
          dfs_children h path ((c, child) # ks) (xs @ ys)"

text \<open>The record of the specification for the node at a path: its id, its path ("ROOT"
  for the root), its failure node's id and path, its terminal flag and its output.\<close>

definition spec_record :: "heap \<Rightarrow> nat \<Rightarrow> string \<Rightarrow> link \<Rightarrow> bool" where
  "spec_record h r p l \<longleftrightarrow>
     (\<exists>n f q. walk h r p = Some n \<and> failure (h ! n) = Some f \<and> walk h r q = Some f \<and>
        l = \<lparr>link_node_id = node_id (h ! n),
             link_path = (if p = [] then ''ROOT'' else p),
             link_failure_node_id = node_id (h ! f),
             link_failure_path = (if q = [] then ''ROOT'' else q),
             link_is_end = is_end (h ! n),
             link_output = output (h ! n)\<rparr>)"

text \<open>The record \<open>traverse\<close> appends for a node of the trie.\<close>

definition rec_of :: "heap \<Rightarrow> AhoCorasick \<Rightarrow> nat set \<Rightarrow> (nat \<Rightarrow> string) \<Rightarrow> nat \<Rightarrow> link" where
  "rec_of h ac S pth n =
     link_of h n (pth n)
       (case failure (h ! n) of
          Some f \<Rightarrow> if f = root ac then ''ROOT'' else if f \<in> S then pth f else ''UNKNOWN''
        | None \<Rightarrow> ''None'')"

text \<open>A list of the nodes below \<open>node\<close>, in depth-first order with sorted children.\<close>

definition subtree_list :: "heap \<Rightarrow> nat set \<Rightarrow> (nat \<Rightarrow> string) \<Rightarrow> nat \<Rightarrow> nat list \<Rightarrow> bool" where
  "subtree_list h S pth node ns \<longleftrightarrow>
     set ns = {n \<in> S. \<exists>rest. pth n = pth node @ rest} \<and>
     sorted_wrt (<) (map pth ns) \<and>
     dfs_paths h node (pth node) (map pth ns)"

text \<open>A node with every address in it moved by \<open>k\<close>.\<close>

definition shift_node :: "nat \<Rightarrow> TrieNode \<Rightarrow> TrieNode" where
  "shift_node k n =
     n\<lparr>children := map (\<lambda>x. (fst x, snd x + k)) (children n),
       failure := map_option (\<lambda>a. a + k) (failure n)\<rparr>"

text \<open>The store \<open>H\<close> placed after the store \<open>h0\<close>.\<close>

definition relocate :: "heap \<Rightarrow> heap \<Rightarrow> heap" where
  "relocate h0 H = h0 @ map (shift_node (length h0)) H"

text \<open>Every address stored in a node is an address of the store.\<close>

definition closed :: "heap \<Rightarrow> bool" where
  "closed H \<longleftrightarrow>
     (\<forall>a<length H. (\<forall>x\<in>set (children (H ! a)). snd x < length H) \<and>
        (\<forall>f. failure (H ! a) = Some f \<longrightarrow> f < length H))"

text \<open>The automaton value with its root moved by the length of \<open>h0\<close>.\<close>

definition relocate_ac :: "heap \<Rightarrow> AhoCorasick \<Rightarrow> AhoCorasick" where
  "relocate_ac h0 ac = ac\<lparr>root := root ac + length h0\<rparr>"

text \<open>Two automatons agree at a path: either neither has a node there, or both have, and
  the two nodes have the same id, the same children keys in the same order, the same
  terminal flag and output, and failure nodes with the same id and the same path.\<close>

definition same_at_path :: "heap \<Rightarrow> AhoCorasick \<Rightarrow> heap \<Rightarrow> AhoCorasick \<Rightarrow> string \<Rightarrow> bool" where
  "same_at_path h1 ac1 h2 ac2 p =
     (case (walk h1 (root ac1) p, walk h2 (root ac2) p) of
        (None, None) \<Rightarrow> True
      | (Some n1, Some n2) \<Rightarrow>
          node_id (h1 ! n1) = node_id (h2 ! n2) \<and>
          map fst (children (h1 ! n1)) = map fst (children (h2 ! n2)) \<and>
          is_end (h1 ! n1) = is_end (h2 ! n2) \<and>
          output (h1 ! n1) = output (h2 ! n2) \<and>
          (case (failure (h1 ! n1), failure (h2 ! n2)) of
             (Some f1, Some f2) \<Rightarrow>
               node_id (h1 ! f1) = node_id (h2 ! f2) \<and>
               get_path_to_node h1 ac1 f1 \<noteq> None \<and>
               get_path_to_node h1 ac1 f1 = get_path_to_node h2 ac2 f2
           | _ \<Rightarrow> False)
      | _ \<Rightarrow> False)"

section \<open>Preservation lemmas\<close>

subsection \<open>Tries built by add_pattern\<close>

lemma add_loop_Cons_None:
  assumes "map_of (children (h ! node)) c = None" "node < length h"
  shows "add_loop h cnt node (c # cs) = add_loop (add_node h cnt node c) (cnt + 1) (length h) cs"
  using assms by (simp add: Let_def add_node_def nth_append list_update_append)

lemma trie_inv_init: "trie_inv (fst (init h0)) (length h0) {length h0} (\<lambda>_. [])"
  by (simp add: init_def Let_def trie_inv_def new_TrieNode_def)

lemma trie_inv_add_node:
  assumes inv: "trie_inv h r S pth" and node: "node \<in> S"
    and new: "map_of (children (h ! node)) c = None"
  shows "trie_inv (add_node h cnt node c) r (insert (length h) S)
           (pth(length h := pth node @ [c]))"
proof -
  let ?a = "length h"
  let ?h = "add_node h cnt node c"
  let ?pth = "pth(?a := pth node @ [c])"
  from inv have fin: "finite S" and r: "r \<in> S" and pr: "pth r = []"
    and lt: "\<And>a. a \<in> S \<Longrightarrow> a < length h" and inj: "inj_on pth S"
    and dist: "\<And>a. a \<in> S \<Longrightarrow> distinct (map fst (children (h ! a)))"
    and kids: "\<And>a c b. a \<in> S \<Longrightarrow> (c, b) \<in> set (children (h ! a)) \<Longrightarrow> b \<in> S \<and> pth b = pth a @ [c]"
    and par: "\<And>b. b \<in> S \<Longrightarrow> b \<noteq> r \<Longrightarrow> \<exists>a\<in>S. \<exists>c. (c, b) \<in> set (children (h ! a))"
    and ids: "\<And>a. a \<in> S \<Longrightarrow> node_id (h ! a) \<noteq> None"
    unfolding trie_inv_def by blast+
  have aS: "?a \<notin> S" using lt by blast
  have nlt: "node < length h" using lt node by blast
  have ckey: "c \<notin> fst ` set (children (h ! node))"
    using new by (simp add: map_of_eq_None_iff)
  have at_a: "children (?h ! ?a) = []"
    by (simp add: add_node_def new_TrieNode_def nth_append)
  have at_node: "children (?h ! node) = children (h ! node) @ [(c, ?a)]"
    using nlt by (simp add: add_node_def nth_append)
  have at_other: "children (?h ! b) = children (h ! b)" if "b \<in> S" "b \<noteq> node" for b
    using that lt[of b] by (simp add: add_node_def nth_append)
  have fresh: "pth b \<noteq> pth node @ [c]" if b: "b \<in> S" for b
  proof
    assume eq: "pth b = pth node @ [c]"
    then have "b \<noteq> r" using pr by auto
    then obtain a c' where a: "a \<in> S" and e: "(c', b) \<in> set (children (h ! a))"
      using par b by blast
    then have "pth b = pth a @ [c']" using kids by blast
    with eq have "pth a = pth node" "c' = c" by auto
    then have "a = node" using inj a node by (auto dest: inj_onD)
    with e \<open>c' = c\<close> ckey show False by force
  qed
  have fresh': "pth node @ [c] \<noteq> pth b" if "b \<in> S" for b
    using fresh[OF that] by simp
  have 1: "inj_on ?pth (insert ?a S)"
    using inj aS fresh fresh' by (auto simp: inj_on_def)
  have 2: "distinct (map fst (children (?h ! b)))" if "b \<in> insert ?a S" for b
  proof (cases "b = ?a")
    case True then show ?thesis by (simp add: at_a)
  next
    case False
    then have bS: "b \<in> S" using that by simp
    show ?thesis
    proof (cases "b = node")
      case True
      then show ?thesis using dist[OF node] ckey by (simp add: at_node)
    next
      case False
      then show ?thesis using dist[OF bS] at_other[OF bS] by simp
    qed
  qed
  have 3: "b \<in> insert ?a S \<and> ?pth b = ?pth x @ [c']"
    if x: "x \<in> insert ?a S" and e: "(c', b) \<in> set (children (?h ! x))" for x c' b
  proof (cases "x = ?a")
    case True then show ?thesis using e by (simp add: at_a)
  next
    case False
    then have xS: "x \<in> S" using x by simp
    then have xa: "x \<noteq> ?a" using aS by auto
    show ?thesis
    proof (cases "x = node")
      case True
      then have "(c', b) \<in> set (children (h ! node)) \<or> (c' = c \<and> b = ?a)"
        using e by (auto simp: at_node)
      then show ?thesis
      proof
        assume o: "(c', b) \<in> set (children (h ! node))"
        then have "b \<in> S \<and> pth b = pth node @ [c']" using kids node by blast
        then show ?thesis using True aS node by auto
      next
        assume "c' = c \<and> b = ?a"
        then show ?thesis using True aS node by auto
      qed
    next
      case False
      then have "(c', b) \<in> set (children (h ! x))" using e at_other[OF xS] by simp
      then have "b \<in> S \<and> pth b = pth x @ [c']" using kids xS by blast
      then show ?thesis using aS xS by auto
    qed
  qed
  have 4: "\<exists>x\<in>insert ?a S. \<exists>c'. (c', b) \<in> set (children (?h ! x))"
    if b: "b \<in> insert ?a S" and br: "b \<noteq> r" for b
  proof (cases "b = ?a")
    case True
    then show ?thesis using node at_node by (intro bexI[of _ node] exI[of _ c]) auto
  next
    case False
    then have "b \<in> S" using b by simp
    then obtain x c' where x: "x \<in> S" and e: "(c', b) \<in> set (children (h ! x))"
      using par br by blast
    have "(c', b) \<in> set (children (?h ! x))"
    proof (cases "x = node")
      case True then show ?thesis using e by (simp add: at_node)
    next
      case False then show ?thesis using e at_other[OF x] by simp
    qed
    then show ?thesis using x by blast
  qed
  have 5: "\<forall>b\<in>insert ?a S. b < length ?h"
    using lt by (auto simp: add_node_def less_Suc_eq)
  have 6: "?pth r = []" using pr r aS by auto
  have 7: "node_id (?h ! b) \<noteq> None" if "b \<in> insert ?a S" for b
  proof (cases "b = ?a")
    case True
    then show ?thesis by (simp add: add_node_def nth_append)
  next
    case False
    then have bS: "b \<in> S" using that by simp
    then have "node_id (?h ! b) = node_id (h ! b)"
      using lt[OF bS] by (cases "b = node") (simp_all add: add_node_def nth_append)
    then show ?thesis using ids[OF bS] by simp
  qed
  show ?thesis
    unfolding trie_inv_def
    using fin r 1 2 3 4 5 6 7 by (intro conjI ballI allI impI) (simp_all, blast+)
qed

lemma map_update_same: "f y = f (xs ! i) \<Longrightarrow> map f (xs[i := y]) = map f xs"
  by (cases "i < length xs") (simp_all add: map_update list_update_same_conv list_update_beyond not_less)

lemma same_children_nth:
  assumes "map children h' = map children h" "a < length h"
  shows "children (h' ! a) = children (h ! a)"
proof -
  have "length h' = length h" using assms(1) by (rule map_eq_imp_length_eq)
  then have "children (h' ! a) = map children h' ! a" using assms(2) by simp
  also have "\<dots> = children (h ! a)" using assms by simp
  finally show ?thesis .
qed

lemma trie_inv_same_children:
  assumes "trie_inv h r S pth" "map children h' = map children h"
    "map node_id h' = map node_id h"
  shows "trie_inv h' r S pth"
proof -
  have len: "length h' = length h" using assms(2) by (rule map_eq_imp_length_eq)
  have lt: "\<And>a. a \<in> S \<Longrightarrow> a < length h" using assms(1) unfolding trie_inv_def by blast
  have eq: "children (h' ! a) = children (h ! a)" if "a \<in> S" for a
    using same_children_nth[OF assms(2) lt[OF that]] .
  have eq2: "node_id (h' ! a) = node_id (h ! a)" if "a \<in> S" for a
  proof -
    have "node_id (h' ! a) = map node_id h' ! a" using lt[OF that] len by simp
    also have "\<dots> = node_id (h ! a)" using assms(3) lt[OF that] by simp
    finally show ?thesis .
  qed
  show ?thesis
    using assms(1) unfolding trie_inv_def by (simp add: eq eq2 len)
qed

lemma trie_inv_add_loop:
  assumes "trie_inv h r S pth" "node \<in> S" "add_loop h cnt node cs = (h', cnt', node')"
  shows "\<exists>S' pth'. trie_inv h' r S' pth' \<and> node' \<in> S'"
  using assms
proof (induction cs arbitrary: h cnt node S pth)
  case Nil
  then show ?case by auto
next
  case (Cons c cs)
  have nlt: "node < length h" using Cons.prems(1,2) unfolding trie_inv_def by blast
  show ?case
  proof (cases "map_of (children (h ! node)) c")
    case None
    have "add_loop (add_node h cnt node c) (cnt + 1) (length h) cs = (h', cnt', node')"
      using Cons.prems(3) add_loop_Cons_None[OF None nlt] by simp
    moreover have "trie_inv (add_node h cnt node c) r (insert (length h) S)
           (pth(length h := pth node @ [c]))"
      using trie_inv_add_node[OF Cons.prems(1,2) None] .
    ultimately show ?thesis using Cons.IH by blast
  next
    case (Some a)
    then have "(c, a) \<in> set (children (h ! node))" by (rule map_of_SomeD)
    then have "a \<in> S" using Cons.prems(1,2) unfolding trie_inv_def by blast
    moreover have "add_loop h cnt a cs = (h', cnt', node')" using Cons.prems(3) Some by simp
    ultimately show ?thesis using Cons.IH Cons.prems(1) by blast
  qed
qed

lemma is_trie_add_pattern:
  assumes "is_trie h (root ac)" "add_pattern h ac p = (h', ac')"
  shows "is_trie h' (root ac') \<and> root ac' = root ac"
proof -
  obtain S pth where inv: "trie_inv h (root ac) S pth" using assms(1) unfolding is_trie_def by blast
  then have r: "root ac \<in> S" unfolding trie_inv_def by blast
  obtain h1 cnt node where al: "add_loop h (node_counter ac) (root ac) p = (h1, cnt, node)"
    by (metis prod_cases3)
  obtain S' pth' where inv': "trie_inv h1 (root ac) S' pth'"
    using trie_inv_add_loop[OF inv r al] by blast
  define h2 where "h2 = h1[node := (h1 ! node)\<lparr>is_end := True\<rparr>]"
  have h': "h' = h2[node := (h2 ! node)\<lparr>output := output (h2 ! node) @ [p]\<rparr>]"
    and ac': "ac' = ac\<lparr>node_counter := cnt\<rparr>"
    using assms(2) al by (simp_all add: add_pattern_def Let_def h2_def)
  have "map children h' = map children h2"
    unfolding h' by (rule map_update_same) simp
  also have "\<dots> = map children h1"
    unfolding h2_def by (rule map_update_same) simp
  finally have mc: "map children h' = map children h1" .
  have "map node_id h' = map node_id h2"
    unfolding h' by (rule map_update_same) simp
  also have "\<dots> = map node_id h1"
    unfolding h2_def by (rule map_update_same) simp
  finally have mi: "map node_id h' = map node_id h1" .
  have "trie_inv h' (root ac) S' pth'" using trie_inv_same_children[OF inv' mc mi] .
  then show ?thesis using ac' unfolding is_trie_def by auto
qed

lemma is_trie_add_patterns:
  assumes "is_trie h (root ac)" "add_patterns h ac ps = (h', ac')"
  shows "is_trie h' (root ac') \<and> root ac' = root ac"
  using assms
proof (induction ps arbitrary: h ac)
  case Nil
  then show ?case by simp
next
  case (Cons p ps)
  obtain h1 ac1 where ap: "add_pattern h ac p = (h1, ac1)" by (cases "add_pattern h ac p")
  then have 1: "is_trie h1 (root ac1)" "root ac1 = root ac"
    using is_trie_add_pattern[OF Cons.prems(1) ap] by auto
  have "add_patterns h1 ac1 ps = (h', ac')" using Cons.prems(2) ap by simp
  then show ?case using Cons.IH[OF 1(1)] 1(2) by metis
qed

lemma is_trie_init: "is_trie (fst (init h0)) (root (snd (init h0)))"
proof -
  have "root (snd (init h0)) = length h0" by (simp add: init_def Let_def)
  then show ?thesis using trie_inv_init[of h0] unfolding is_trie_def by auto
qed

subsection \<open>Following failure links\<close>

lemma trie_kid:
  assumes "trie_inv h r S pth" "p \<in> S" "(c, x) \<in> set (children (h ! p))"
  shows "x \<in> S" "pth x = pth p @ [c]" "x \<noteq> r" "x \<noteq> p"
    "length (pth x) = Suc (length (pth p))"
proof -
  show 1: "x \<in> S" and 2: "pth x = pth p @ [c]"
    using assms unfolding trie_inv_def by blast+
  have "pth r = []" using assms(1) unfolding trie_inv_def by blast
  then show "x \<noteq> r" using 2 by auto
  show "x \<noteq> p" using 2 by auto
  show "length (pth x) = Suc (length (pth p))" using 2 by simp
qed

lemma trie_lt: "trie_inv h r S pth \<Longrightarrow> a \<in> S \<Longrightarrow> a < length h"
  unfolding trie_inv_def by blast

lemma trie_root: "trie_inv h r S pth \<Longrightarrow> r \<in> S \<and> pth r = []"
  unfolding trie_inv_def by blast

lemma trie_depth0:
  assumes "trie_inv h r S pth" "n \<in> S" "pth n = []"
  shows "n = r"
proof (rule ccontr)
  assume "n \<noteq> r"
  then obtain a c where "a \<in> S" "(c, n) \<in> set (children (h ! a))"
    using assms unfolding trie_inv_def by blast
  then have "pth n = pth a @ [c]" using trie_kid(2)[OF assms(1)] by blast
  then show False using assms(3) by simp
qed

lemma trie_parent:
  assumes "trie_inv h r S pth" "n \<in> S" "n \<noteq> r"
  shows "\<exists>p\<in>S. \<exists>c. (c, n) \<in> set (children (h ! p))"
  using assms unfolding trie_inv_def by blast

lemma trie_parent_unique:
  assumes "trie_inv h r S pth" "p \<in> S" "p' \<in> S"
    "(c, x) \<in> set (children (h ! p))" "(c', x) \<in> set (children (h ! p'))"
  shows "p = p' \<and> c = c'"
proof -
  have "pth x = pth p @ [c]" "pth x = pth p' @ [c']"
    using trie_kid(2)[OF assms(1)] assms(2-5) by blast+
  then have "pth p = pth p'" "c = c'" by auto
  moreover have "inj_on pth S" using assms(1) unfolding trie_inv_def by blast
  ultimately show ?thesis using assms(2,3) by (auto dest: inj_onD)
qed

lemma trie_map_of:
  assumes "trie_inv h r S pth" "p \<in> S"
  shows "map_of (children (h ! p)) c = Some x \<longleftrightarrow> (c, x) \<in> set (children (h ! p))"
proof -
  have "distinct (map fst (children (h ! p)))" using assms unfolding trie_inv_def by blast
  then show ?thesis by simp
qed

lemma follow_Some:
  "follow (Some f) h r c =
     (if f \<noteq> r \<and> map_of (children (h ! f)) c = None
      then follow (failure (h ! f)) h r c else Some (Inr f))"
  by (subst follow.simps) simp

lemma follow_stop:
  "f = r \<or> map_of (children (h ! f)) c \<noteq> None \<Longrightarrow> follow (Some f) h r c = Some (Inr f)"
  by (subst follow.simps) auto

lemma follow_next:
  "f \<noteq> r \<Longrightarrow> map_of (children (h ! f)) c = None \<Longrightarrow>
   follow (Some f) h r c = follow (failure (h ! f)) h r c"
  by (subst follow.simps) auto

lemma follow_total:
  assumes links: "\<forall>n\<in>S. n \<noteq> r \<and> length (pth n) \<le> k \<longrightarrow>
             (\<exists>f\<in>S. failure (h ! n) = Some f \<and> length (pth f) < length (pth n))"
    and "f \<in> S" "length (pth f) \<le> k"
  shows "\<exists>cand\<in>S. follow (Some f) h r c = Some (Inr cand) \<and>
           length (pth cand) \<le> length (pth f) \<and>
           (cand = r \<or> map_of (children (h ! cand)) c \<noteq> None)"
  using assms(2,3)
proof (induction "length (pth f)" arbitrary: f rule: less_induct)
  case less
  show ?case
  proof (cases "f \<noteq> r \<and> map_of (children (h ! f)) c = None")
    case False
    then have "f = r \<or> map_of (children (h ! f)) c \<noteq> None" by auto
    then show ?thesis using follow_stop[of f r h c] less.prems by (intro bexI[of _ f]) auto
  next
    case True
    then obtain f' where f': "f' \<in> S" "failure (h ! f) = Some f'"
      "length (pth f') < length (pth f)"
      using links less.prems by blast
    then obtain cand where "cand \<in> S" "follow (Some f') h r c = Some (Inr cand)"
      "length (pth cand) \<le> length (pth f')"
      "cand = r \<or> map_of (children (h ! cand)) c \<noteq> None"
      using less.hyps[of f'] less.prems by auto
    moreover have "follow (Some f) h r c = follow (Some f') h r c"
      using True f' by (simp add: follow_next)
    ultimately show ?thesis using f'(3) by (intro bexI[of _ cand]) auto
  qed
qed

lemma follow_frame:
  assumes links: "\<forall>n\<in>S. n \<noteq> r \<and> length (pth n) \<le> k \<longrightarrow>
             (\<exists>f\<in>S. failure (h ! n) = Some f \<and> length (pth f) < length (pth n))"
    and lt: "\<forall>a\<in>S. a < length h"
    and ch: "map children h' = map children h"
    and fl: "\<forall>n\<in>S. length (pth n) \<le> k \<longrightarrow> failure (h' ! n) = failure (h ! n)"
    and "f \<in> S" "length (pth f) \<le> k"
  shows "follow (Some f) h' r c = follow (Some f) h r c"
  using assms(5,6)
proof (induction "length (pth f)" arbitrary: f rule: less_induct)
  case less
  have kids: "children (h' ! f) = children (h ! f)"
    using same_children_nth[OF ch] lt less.prems by blast
  show ?case
  proof (cases "f \<noteq> r \<and> map_of (children (h ! f)) c = None")
    case False
    then have "f = r \<or> map_of (children (h ! f)) c \<noteq> None" by auto
    then show ?thesis using follow_stop[of f r h c] follow_stop[of f r h' c] kids by simp
  next
    case True
    then obtain f' where f': "f' \<in> S" "failure (h ! f) = Some f'"
      "length (pth f') < length (pth f)"
      using links less.prems by blast
    have "failure (h' ! f) = Some f'" using fl less.prems f'(2) by simp
    then have "follow (Some f) h' r c = follow (Some f') h' r c"
      using True by (simp add: follow_next kids)
    also have "\<dots> = follow (Some f') h r c"
      using less.hyps[of f'] f' less.prems by simp
    also have "\<dots> = follow (Some f) h r c"
      using True f' by (simp add: follow_next)
    finally show ?thesis .
  qed
qed

subsection \<open>One child of the loop\<close>

lemma link_child_unfold:
  "(h[x := (h ! x)\<lparr>failure := Some t\<rparr>])
          [x := (h[x := (h ! x)\<lparr>failure := Some t\<rparr>] ! x)
             \<lparr>output := output (h[x := (h ! x)\<lparr>failure := Some t\<rparr>] ! x)
                        @ output (h[x := (h ! x)\<lparr>failure := Some t\<rparr>] ! t)\<rparr>]
        = link_child h x t"
proof (cases "x < length h")
  case True
  then show ?thesis by (cases "t = x") (simp_all add: link_child_def)
next
  case False
  then show ?thesis by (simp add: link_child_def list_update_beyond not_less)
qed

lemma for_children_Cons:
  "for_children h r q cur ((c, x) # rest) =
     (case follow (failure (h ! cur)) h r c of
        None \<Rightarrow> None
      | Some (Inl e) \<Rightarrow> Some (Inl e)
      | Some (Inr f) \<Rightarrow>
          for_children (link_child h x (failure_target h r c x f)) r (q @ [x]) cur rest)"
  by (simp only: for_children.simps Let_def link_child_unfold)

lemma link_child_children [simp]: "children (link_child h x t ! n) = children (h ! n)"
  by (cases "x < length h"; cases "n = x")
     (simp_all add: link_child_def list_update_beyond not_less)

lemma link_child_other [simp]: "n \<noteq> x \<Longrightarrow> link_child h x t ! n = h ! n"
  by (simp add: link_child_def)

lemma link_child_failure [simp]:
  "x < length h \<Longrightarrow> failure (link_child h x t ! x) = Some t"
  by (simp add: link_child_def)

lemma link_child_output [simp]:
  "x < length h \<Longrightarrow> output (link_child h x t ! x) = output (h ! x) @ output (h ! t)"
  by (simp add: link_child_def)

lemma link_child_length [simp]: "length (link_child h x t) = length h"
  by (simp add: link_child_def)

lemma link_child_maps:
  "map children (link_child h x t) = map children h"
  "map is_end (link_child h x t) = map is_end h"
  "map node_id (link_child h x t) = map node_id h"
  unfolding link_child_def by (rule map_update_same, simp)+

lemma failure_target_link_child [simp]:
  "failure_target (link_child h x t) r c n f = failure_target h r c n f"
  by (simp add: failure_target_def)

lemma links_for_follow:
  assumes "links_inv h r S pth k G"
  shows "\<forall>n\<in>S. n \<noteq> r \<and> length (pth n) \<le> k \<longrightarrow>
           (\<exists>f\<in>S. failure (h ! n) = Some f \<and> length (pth f) < length (pth n))"
  using assms unfolding links_inv_def by blast

lemma step_target:
  assumes inv: "trie_inv h r S pth" and li: "links_inv h r S pth k G"
    and cur: "cur \<in> S" "length (pth cur) = k" "1 \<le> k"
    and x: "(c, x) \<in> set (children (h ! cur))"
  shows "\<exists>cand. follow (failure (h ! cur)) h r c = Some (Inr cand) \<and>
           failure_target h r c x cand \<in> S \<and>
           length (pth (failure_target h r c x cand)) \<le> k"
proof -
  have "cur \<noteq> r" using cur trie_root[OF inv] by auto
  then obtain f0 where f0: "f0 \<in> S" "failure (h ! cur) = Some f0" "length (pth f0) < k"
    using links_for_follow[OF li] cur by blast
  obtain cand where cand: "cand \<in> S" "follow (Some f0) h r c = Some (Inr cand)"
    "length (pth cand) \<le> length (pth f0)"
    using follow_total[OF links_for_follow[OF li], of f0 c] f0 by auto
  have rS: "r \<in> S" "length (pth r) \<le> k" using trie_root[OF inv] by auto
  have "failure_target h r c x cand \<in> S \<and> length (pth (failure_target h r c x cand)) \<le> k"
  proof (cases "map_of (children (h ! cand)) c")
    case None
    then show ?thesis using rS by (simp add: failure_target_def)
  next
    case (Some y)
    then have "(c, y) \<in> set (children (h ! cand))" by (rule map_of_SomeD)
    then have "y \<in> S" "length (pth y) = Suc (length (pth cand))"
      using trie_kid[OF inv cand(1)] by blast+
    then show ?thesis using Some rS cand(3) f0(3) by (simp add: failure_target_def)
  qed
  then show ?thesis using cand(2) f0(2) by auto
qed

lemma links_inv_link_child:
  assumes inv: "trie_inv h r S pth" and li: "links_inv h r S pth k G"
    and x: "x \<in> S" "length (pth x) = Suc k" and t: "t \<in> S" "length (pth t) \<le> k"
  shows "links_inv (link_child h x t) r S pth k (insert x G)"
proof -
  have xr: "x \<noteq> r" using x trie_root[OF inv] by auto
  have xl: "x < length h" using trie_lt[OF inv x(1)] .
  have 1: "failure (link_child h x t ! r) = Some r"
    using li xr unfolding links_inv_def by simp
  have 2: "\<exists>f\<in>S. failure (link_child h x t ! n) = Some f \<and> length (pth f) < length (pth n)"
    if "n \<in> insert x G" for n
  proof (cases "n = x")
    case True
    then show ?thesis using t x xl by auto
  next
    case False
    then have "n \<in> G" using that by simp
    then show ?thesis using li False unfolding links_inv_def by simp
  qed
  show ?thesis
    unfolding links_inv_def
  proof (intro conjI)
    show "failure (link_child h x t ! r) = Some r" by (rule 1)
    show "insert x G \<subseteq> S - {r}" using li x xr unfolding links_inv_def by auto
    show "\<forall>n\<in>S. n \<noteq> r \<and> length (pth n) \<le> k \<longrightarrow> n \<in> insert x G"
      using li unfolding links_inv_def by auto
    show "\<forall>n\<in>insert x G. length (pth n) \<le> Suc k"
      using li x unfolding links_inv_def by auto
    show "\<forall>n\<in>insert x G. \<exists>f\<in>S. failure (link_child h x t ! n) = Some f \<and>
            length (pth f) < length (pth n)"
      using 2 by blast
  qed
qed

subsection \<open>The loop over the children\<close>

lemma follow_link_child:
  assumes inv: "trie_inv h r S pth" and li: "links_inv h r S pth k G"
    and x: "length (pth x) = Suc k" and f: "f \<in> S" "length (pth f) \<le> k"
  shows "follow (Some f) (link_child h x t) r c = follow (Some f) h r c"
proof (rule follow_frame[OF links_for_follow[OF li] _ _ _ f])
  show "\<forall>a\<in>S. a < length h" using trie_lt[OF inv] by blast
  show "map children (link_child h x t) = map children h" by (rule link_child_maps)
  show "\<forall>n\<in>S. length (pth n) \<le> k \<longrightarrow> failure (link_child h x t ! n) = failure (h ! n)"
  proof (intro ballI impI)
    fix n assume "n \<in> S" "length (pth n) \<le> k"
    then have "n \<noteq> x" using x by auto
    then show "failure (link_child h x t ! n) = failure (h ! n)" by simp
  qed
qed

lemma step_inv_link_child:
  assumes inv: "trie_inv h r S pth" and li: "links_inv h r S pth k G"
    and si: "step_inv h r S G"
    and cur: "cur \<in> S" "length (pth cur) = k" "1 \<le> k"
    and x: "(c, x) \<in> set (children (h ! cur))"
    and fo: "follow (failure (h ! cur)) h r c = Some (Inr cand)"
  shows "step_inv (link_child h x (failure_target h r c x cand)) r S (insert x G)"
proof -
  let ?t = "failure_target h r c x cand"
  let ?h = "link_child h x ?t"
  have xS: "x \<in> S" and dx: "length (pth x) = Suc k"
    using trie_kid[OF inv cur(1) x] cur(2) by auto
  have xl: "x < length h" using trie_lt[OF inv xS] .
  have curr: "cur \<noteq> r" using cur trie_root[OF inv] by auto
  have fl: "follow (failure (h ! p)) ?h r c' = follow (failure (h ! p)) h r c'"
    if p: "p \<in> S" "p \<noteq> r" "length (pth p) \<le> k" for p c'
  proof -
    obtain fp where "fp \<in> S" "failure (h ! p) = Some fp" "length (pth fp) < length (pth p)"
      using links_for_follow[OF li] p by blast
    then show ?thesis using follow_link_child[OF inv li dx, of fp ?t c'] p(3) by simp
  qed
  have main: "if p = r then failure (?h ! n) = Some r
        else \<exists>cand'. follow (failure (?h ! p)) ?h r c' = Some (Inr cand') \<and>
               failure (?h ! n) = Some (failure_target ?h r c' n cand')"
    if p: "p \<in> S" and e: "(c', n) \<in> set (children (h ! p))" and n: "n \<in> insert x G"
    for p c' n
  proof (cases "n = x")
    case True
    then have pc: "p = cur" "c' = c" using trie_parent_unique[OF inv p cur(1)] e x by auto
    have "failure (?h ! cur) = failure (h ! cur)" using trie_kid(4)[OF inv cur(1) x] by simp
    moreover have "follow (failure (h ! cur)) ?h r c = follow (failure (h ! cur)) h r c"
      using fl[OF cur(1) curr] cur(2) by simp
    ultimately show ?thesis using True pc curr fo xl by simp
  next
    case False
    then have nG: "n \<in> G" using n by simp
    have dn: "length (pth n) \<le> Suc k" using li nG unfolding links_inv_def by blast
    have dp: "length (pth p) \<le> k" using trie_kid(5)[OF inv p e] dn by simp
    have px: "p \<noteq> x" using dp dx by auto
    have old: "if p = r then failure (h ! n) = Some r
        else \<exists>cand'. follow (failure (h ! p)) h r c' = Some (Inr cand') \<and>
               failure (h ! n) = Some (failure_target h r c' n cand')"
      using si p e nG unfolding step_inv_def by blast
    show ?thesis
    proof (cases "p = r")
      case True
      then show ?thesis using old False by simp
    next
      case pr: False
      then show ?thesis using old False px fl[OF p pr dp] by simp
    qed
  qed
  show ?thesis
    unfolding step_inv_def
  proof (intro ballI allI impI)
    fix p c' n
    assume p: "p \<in> S" and a: "(c', n) \<in> set (children (?h ! p)) \<and> n \<in> insert x G"
    from a have e: "(c', n) \<in> set (children (h ! p))" and n: "n \<in> insert x G" by simp_all
    show "if p = r then failure (?h ! n) = Some r
        else \<exists>cand'. follow (failure (?h ! p)) ?h r c' = Some (Inr cand') \<and>
               failure (?h ! n) = Some (failure_target ?h r c' n cand')"
      by (rule main[OF p e n])
  qed
qed

lemma out_inv_link_child:
  assumes inv: "trie_inv h r S pth" and li: "links_inv h r S pth k G"
    and oi: "out_inv h0 h S pth G"
    and x: "x \<in> S" "length (pth x) = Suc k" "1 \<le> k" "x \<notin> G"
    and t: "t \<in> S" "length (pth t) \<le> k"
  shows "out_inv h0 (link_child h x t) S pth (insert x G)"
proof -
  let ?h = "link_child h x t"
  have xl: "x < length h" using trie_lt[OF inv x(1)] .
  have tx: "t \<noteq> x" using t x by auto
  have "output (?h ! n) = output (h0 ! n) @
        (if n \<in> insert x G \<and> 2 \<le> length (pth n)
         then (case failure (?h ! n) of Some f \<Rightarrow> output (?h ! f) | None \<Rightarrow> [])
         else [])" if n: "n \<in> S" for n
  proof (cases "n = x")
    case True
    have "output (h ! x) = output (h0 ! x)" using oi x unfolding out_inv_def by simp
    then show ?thesis using True xl x tx by simp
  next
    case False
    have old: "output (h ! n) = output (h0 ! n) @
        (if n \<in> G \<and> 2 \<le> length (pth n)
         then (case failure (h ! n) of Some f \<Rightarrow> output (h ! f) | None \<Rightarrow> [])
         else [])" using oi n unfolding out_inv_def by blast
    show ?thesis
    proof (cases "n \<in> G")
      case True
      then obtain f where f: "failure (h ! n) = Some f" "length (pth f) < length (pth n)"
        "length (pth n) \<le> Suc k"
        using li unfolding links_inv_def by blast
      then have "f \<noteq> x" using x by auto
      then show ?thesis using old False f True by simp
    next
      case nG: False
      then show ?thesis using old False by simp
    qed
  qed
  then show ?thesis unfolding out_inv_def by blast
qed

lemma frame_inv_link_child:
  assumes "frame_inv h0 h S" "x \<in> S"
  shows "frame_inv h0 (link_child h x t) S"
proof -
  have "link_child h x t ! a = h0 ! a" if "a < length h" "a \<notin> S" for a
  proof -
    have "a \<noteq> x" using that assms(2) by auto
    then show ?thesis using assms(1) that unfolding frame_inv_def by simp
  qed
  then show ?thesis using assms(1) unfolding frame_inv_def by (simp add: link_child_maps)
qed

lemma bfs_inv_child:
  assumes bi: "bfs_inv h0 h r S pth k G"
    and cur: "cur \<in> S" "length (pth cur) = k" "1 \<le> k"
    and x: "(c, x) \<in> set (children (h ! cur))" "x \<notin> G"
  shows "\<exists>cand. follow (failure (h ! cur)) h r c = Some (Inr cand) \<and>
           bfs_inv h0 (link_child h x (failure_target h r c x cand)) r S pth k (insert x G)"
proof -
  from bi have inv: "trie_inv h r S pth" and fi: "frame_inv h0 h S"
    and li: "links_inv h r S pth k G" and si: "step_inv h r S G"
    and oi: "out_inv h0 h S pth G"
    unfolding bfs_inv_def by blast+
  obtain cand where fo: "follow (failure (h ! cur)) h r c = Some (Inr cand)"
    and t: "failure_target h r c x cand \<in> S"
      "length (pth (failure_target h r c x cand)) \<le> k"
    using step_target[OF inv li cur x(1)] by blast
  let ?h = "link_child h x (failure_target h r c x cand)"
  have xS: "x \<in> S" and dx: "length (pth x) = Suc k"
    using trie_kid[OF inv cur(1) x(1)] cur(2) by auto
  have "trie_inv ?h r S pth"
    using trie_inv_same_children[OF inv link_child_maps(1,3)] .
  moreover have "frame_inv h0 ?h S" using frame_inv_link_child[OF fi xS] .
  moreover have "links_inv ?h r S pth k (insert x G)"
    using links_inv_link_child[OF inv li xS dx t] .
  moreover have "step_inv ?h r S (insert x G)"
    using step_inv_link_child[OF inv li si cur x(1) fo] .
  moreover have "out_inv h0 ?h S pth (insert x G)"
    using out_inv_link_child[OF inv li oi xS dx cur(3) x(2) t] .
  ultimately show ?thesis using fo unfolding bfs_inv_def by blast
qed

lemma for_children_inv:
  assumes "bfs_inv h0 h r S pth k G"
    and "cur \<in> S" "length (pth cur) = k" "1 \<le> k"
    and "set ks \<subseteq> set (children (h ! cur))" "distinct (map snd ks)"
    and "snd ` set ks \<inter> G = {}"
  shows "\<exists>h'. for_children h r q cur ks = Some (Inr (h', q @ map snd ks)) \<and>
           bfs_inv h0 h' r S pth k (G \<union> snd ` set ks)"
  using assms(1,5,6,7)
proof (induction ks arbitrary: h q G)
  case Nil
  then show ?case by simp
next
  case (Cons a ks)
  obtain c x where a: "a = (c, x)" by (cases a)
  have x: "(c, x) \<in> set (children (h ! cur))" "x \<notin> G" using Cons.prems a by auto
  obtain cand where fo: "follow (failure (h ! cur)) h r c = Some (Inr cand)"
    and bi: "bfs_inv h0 (link_child h x (failure_target h r c x cand)) r S pth k (insert x G)"
    using bfs_inv_child[OF Cons.prems(1) assms(2,3,4) x] by blast
  let ?h = "link_child h x (failure_target h r c x cand)"
  have 1: "set ks \<subseteq> set (children (?h ! cur))" using Cons.prems(2) by auto
  have 2: "distinct (map snd ks)" using Cons.prems(3) by simp
  have 3: "snd ` set ks \<inter> insert x G = {}" using Cons.prems(3,4) a by auto
  obtain h' where h': "for_children ?h r (q @ [x]) cur ks = Some (Inr (h', (q @ [x]) @ map snd ks))"
    "bfs_inv h0 h' r S pth k (insert x G \<union> snd ` set ks)"
    using Cons.IH[OF bi 1 2 3] by blast
  have "for_children h r q cur (a # ks) = Some (Inr (h', q @ map snd (a # ks)))"
    using h'(1) fo by (simp add: a for_children_Cons del: for_children.simps)
  moreover have "insert x G \<union> snd ` set ks = G \<union> snd ` set (a # ks)" using a by auto
  ultimately show ?case using h'(2) by metis
qed

subsection \<open>One level of the breadth-first search\<close>

lemma bfs_Nil: "bfs h r [] = Some (Inr h)"
  by (subst bfs.simps) simp

lemma bfs_Cons:
  "bfs h r (cur # q) =
     (case for_children h r q cur (children (h ! cur)) of
        None \<Rightarrow> None
      | Some (Inl e) \<Rightarrow> Some (Inl e)
      | Some (Inr (h1, q1)) \<Rightarrow> bfs h1 r q1)"
  by (subst bfs.simps) simp

lemma kids_distinct:
  assumes inv: "trie_inv h r S pth" and p: "p \<in> S"
  shows "distinct (map snd (children (h ! p)))"
proof -
  have d: "distinct (map fst (children (h ! p)))" using inv p unfolding trie_inv_def by blast
  then have "distinct (children (h ! p))" by (simp add: distinct_map)
  moreover have "inj_on snd (set (children (h ! p)))"
  proof (rule inj_onI)
    fix a b assume a: "a \<in> set (children (h ! p))" and b: "b \<in> set (children (h ! p))"
      and e: "snd a = snd b"
    have "(fst a, snd a) \<in> set (children (h ! p))" "(fst b, snd a) \<in> set (children (h ! p))"
      using a b e by (metis prod.collapse)+
    then have "fst a = fst b" using trie_parent_unique[OF inv p p] by blast
    then show "a = b" using e by (simp add: prod_eq_iff)
  qed
  ultimately show ?thesis by (simp add: distinct_map)
qed

lemma bfs_inv_children:
  assumes "bfs_inv h0 h r S pth k G" "bfs_inv h0 h' r S pth k' G'" "n \<in> S"
  shows "children (h' ! n) = children (h ! n)"
proof -
  have "map children h' = map children h"
    using assms(1,2) unfolding bfs_inv_def frame_inv_def by simp
  moreover have "n < length h" using assms(1,3) trie_lt unfolding bfs_inv_def by blast
  ultimately show ?thesis by (rule same_children_nth)
qed

lemma bfs_level:
  assumes "bfs_inv h0 h r S pth k G" and k: "1 \<le> k"
    and "set L \<subseteq> {n \<in> S. length (pth n) = k}" "distinct L"
    and "\<forall>n\<in>set L. snd ` set (children (h ! n)) \<inter> G = {}"
  shows "\<exists>h'. bfs_inv h0 h' r S pth k (G \<union> (\<Union>n\<in>set L. snd ` set (children (h ! n)))) \<and>
           bfs h r (L @ R) = bfs h' r (R @ concat (map (\<lambda>n. map snd (children (h ! n))) L))"
  using assms(1,3,4,5)
proof (induction L arbitrary: h G R)
  case Nil
  then show ?case by auto
next
  case (Cons cur L)
  have inv: "trie_inv h r S pth" using Cons.prems(1) unfolding bfs_inv_def by blast
  have cur: "cur \<in> S" "length (pth cur) = k" using Cons.prems(2) by auto
  let ?ks = "children (h ! cur)"
  have disj0: "snd ` set ?ks \<inter> G = {}" using Cons.prems(4) by simp
  obtain h1 where h1: "for_children h r (L @ R) cur ?ks = Some (Inr (h1, (L @ R) @ map snd ?ks))"
    and bi1: "bfs_inv h0 h1 r S pth k (G \<union> snd ` set ?ks)"
    using for_children_inv[OF Cons.prems(1) cur k subset_refl kids_distinct[OF inv cur(1)] disj0,
        of "L @ R"] by blast
  have same: "children (h1 ! n) = children (h ! n)" if "n \<in> S" for n
    using bfs_inv_children[OF Cons.prems(1) bi1 that] .
  have LS: "set L \<subseteq> {n \<in> S. length (pth n) = k}" using Cons.prems(2) by auto
  have dL: "distinct L" and curL: "cur \<notin> set L" using Cons.prems(3) by auto
  have disj: "\<forall>n\<in>set L. snd ` set (children (h1 ! n)) \<inter> (G \<union> snd ` set ?ks) = {}"
  proof
    fix n assume n: "n \<in> set L"
    then have nS: "n \<in> S" using LS by auto
    have "snd ` set (children (h ! n)) \<inter> G = {}" using Cons.prems(4) n by auto
    moreover have "snd ` set (children (h ! n)) \<inter> snd ` set ?ks = {}"
    proof (rule ccontr)
      assume "snd ` set (children (h ! n)) \<inter> snd ` set ?ks \<noteq> {}"
      then obtain c c' x where "(c, x) \<in> set (children (h ! n))" "(c', x) \<in> set ?ks"
        by force
      then have "n = cur" using trie_parent_unique[OF inv nS cur(1)] by blast
      then show False using n curL by simp
    qed
    ultimately show "snd ` set (children (h1 ! n)) \<inter> (G \<union> snd ` set ?ks) = {}"
      using same[OF nS] by auto
  qed
  obtain h' where h': "bfs_inv h0 h' r S pth k
        ((G \<union> snd ` set ?ks) \<union> (\<Union>n\<in>set L. snd ` set (children (h1 ! n))))"
    and eq: "bfs h1 r (L @ (R @ map snd ?ks)) =
        bfs h' r ((R @ map snd ?ks) @ concat (map (\<lambda>n. map snd (children (h1 ! n))) L))"
    using Cons.IH[OF bi1 LS dL disj, of "R @ map snd ?ks"] by blast
  have same': "\<forall>n\<in>set L. children (h1 ! n) = children (h ! n)" using same LS by auto
  have m: "map (\<lambda>n. map snd (children (h1 ! n))) L = map (\<lambda>n. map snd (children (h ! n))) L"
    using same' by (intro map_cong) auto
  have u: "(\<Union>n\<in>set L. snd ` set (children (h1 ! n))) = (\<Union>n\<in>set L. snd ` set (children (h ! n)))"
    using same' by simp
  have "bfs h r ((cur # L) @ R) = bfs h1 r (L @ (R @ map snd ?ks))"
    using h1 by (simp add: bfs_Cons)
  also have "\<dots> = bfs h' r (R @ concat (map (\<lambda>n. map snd (children (h ! n))) (cur # L)))"
    using eq m by simp
  finally have "bfs h r ((cur # L) @ R) =
      bfs h' r (R @ concat (map (\<lambda>n. map snd (children (h ! n))) (cur # L)))" .
  moreover have "(G \<union> snd ` set ?ks) \<union> (\<Union>n\<in>set L. snd ` set (children (h1 ! n)))
      = G \<union> (\<Union>n\<in>set (cur # L). snd ` set (children (h ! n)))"
    using u by auto
  ultimately show ?case using h' by metis
qed

lemma trie_ancestor:
  assumes inv: "trie_inv h r S pth"
  shows "n \<in> S \<Longrightarrow> j \<le> length (pth n) \<Longrightarrow> \<exists>m\<in>S. length (pth m) = j"
proof (induction "length (pth n)" arbitrary: n rule: less_induct)
  case less
  show ?case
  proof (cases "length (pth n) = j")
    case True
    then show ?thesis using less.prems by blast
  next
    case False
    then have "n \<noteq> r" using less.prems trie_root[OF inv] by auto
    then obtain p c where p: "p \<in> S" "(c, n) \<in> set (children (h ! p))"
      using trie_parent[OF inv less.prems(1)] by blast
    then have "length (pth n) = Suc (length (pth p))" using trie_kid(5)[OF inv] by blast
    then show ?thesis using less.hyps[of p] p(1) False less.prems(2) by auto
  qed
qed

lemma distinct_concat_map:
  assumes "distinct L" "\<And>n. n \<in> set L \<Longrightarrow> distinct (f n)"
    "\<And>n m. n \<in> set L \<Longrightarrow> m \<in> set L \<Longrightarrow> n \<noteq> m \<Longrightarrow> set (f n) \<inter> set (f m) = {}"
  shows "distinct (concat (map f L))"
  using assms
proof (induction L)
  case Nil
  then show ?case by simp
next
  case (Cons a L)
  have "distinct (concat (map f L))" using Cons by auto
  moreover have "distinct (f a)" using Cons.prems(2) by simp
  moreover have "set (f a) \<inter> set (f m) = {}" if "m \<in> set L" for m
    using Cons.prems(1) Cons.prems(3)[of a m] that by auto
  ultimately show ?case by auto
qed

subsection \<open>The whole search\<close>

lemma bfs_inv_Suc:
  assumes "bfs_inv h0 h r S pth k G" "\<forall>n\<in>S. n \<noteq> r \<and> length (pth n) \<le> Suc k \<longrightarrow> n \<in> G"
  shows "bfs_inv h0 h r S pth (Suc k) G"
proof -
  have "links_inv h r S pth k G" using assms(1) unfolding bfs_inv_def by blast
  then have "links_inv h r S pth (Suc k) G"
    using assms(2) unfolding links_inv_def by (auto intro: le_SucI)
  then show ?thesis using assms(1) unfolding bfs_inv_def by blast
qed

lemma bfs_total:
  assumes "bfs_inv h0 h r S pth k G" "1 \<le> k"
    and "G = {n \<in> S. n \<noteq> r \<and> length (pth n) \<le> k}"
    and "set L = {n \<in> S. length (pth n) = k}" "distinct L"
    and M: "\<forall>n\<in>S. length (pth n) \<le> M"
  shows "\<exists>h' k'. bfs h r L = Some (Inr h') \<and> bfs_inv h0 h' r S pth k' (S - {r})"
  using assms(1-5)
proof (induction "Suc M - k" arbitrary: k h L G rule: less_induct)
  case less
  have inv: "trie_inv h r S pth" using less.prems(1) unfolding bfs_inv_def by blast
  show ?case
  proof (cases "L = []")
    case True
    have "n \<in> G" if n: "n \<in> S" "n \<noteq> r" for n
    proof (rule ccontr)
      assume "n \<notin> G"
      then have "k \<le> length (pth n)" using less.prems(3) n by auto
      then obtain m where "m \<in> S" "length (pth m) = k" using trie_ancestor[OF inv n(1)] by blast
      then show False using less.prems(4) True by auto
    qed
    then have "G = S - {r}" using less.prems(3) by auto
    then show ?thesis using less.prems(1) True bfs_Nil by auto
  next
    case False
    let ?kids = "\<lambda>n. map snd (children (h ! n))"
    let ?L1 = "concat (map ?kids L)"
    let ?G1 = "G \<union> (\<Union>n\<in>set L. snd ` set (children (h ! n)))"
    have LS: "set L \<subseteq> {n \<in> S. length (pth n) = k}" using less.prems(4) by simp
    have disj: "\<forall>n\<in>set L. snd ` set (children (h ! n)) \<inter> G = {}"
    proof (intro ballI)
      fix n assume "n \<in> set L"
      then have n: "n \<in> S" "length (pth n) = k" using LS by auto
      have "x \<notin> G" if "(c, x) \<in> set (children (h ! n))" for c x
        using trie_kid(5)[OF inv n(1) that] n(2) less.prems(3) by auto
      then show "snd ` set (children (h ! n)) \<inter> G = {}" by auto
    qed
    obtain h1 where bi1: "bfs_inv h0 h1 r S pth k ?G1"
      and eq: "bfs h r (L @ []) = bfs h1 r ([] @ ?L1)"
      using bfs_level[OF less.prems(1,2) LS less.prems(5) disj, of "[]"] by blast
    have setL1: "set ?L1 = {n \<in> S. length (pth n) = Suc k}"
    proof (intro equalityI subsetI)
      fix x assume "x \<in> set ?L1"
      then obtain n c where n: "n \<in> set L" "(c, x) \<in> set (children (h ! n))" by auto
      then have "n \<in> S" "length (pth n) = k" using LS by auto
      then show "x \<in> {n \<in> S. length (pth n) = Suc k}"
        using trie_kid(1,5)[OF inv _ n(2)] by auto
    next
      fix x assume "x \<in> {n \<in> S. length (pth n) = Suc k}"
      then have x: "x \<in> S" "length (pth x) = Suc k" by auto
      then have "x \<noteq> r" using trie_root[OF inv] by auto
      then obtain p c where p: "p \<in> S" "(c, x) \<in> set (children (h ! p))"
        using trie_parent[OF inv x(1)] by blast
      then have "length (pth p) = k" using trie_kid(5)[OF inv p] x(2) by simp
      then have "p \<in> set L" using less.prems(4) p(1) by simp
      then show "x \<in> set ?L1" using p(2) by force
    qed
    have G1: "?G1 = {n \<in> S. n \<noteq> r \<and> length (pth n) \<le> Suc k}"
    proof -
      have "(\<Union>n\<in>set L. snd ` set (children (h ! n))) = set ?L1" by auto
      then have "?G1 = G \<union> {n \<in> S. length (pth n) = Suc k}" using setL1 by simp
      also have "\<dots> = {n \<in> S. n \<noteq> r \<and> length (pth n) \<le> Suc k}"
        using less.prems(3) trie_root[OF inv] by (auto simp: le_Suc_eq)
      finally show ?thesis .
    qed
    have dL1: "distinct ?L1"
    proof (rule distinct_concat_map[OF less.prems(5)])
      fix n assume "n \<in> set L"
      then show "distinct (?kids n)" using kids_distinct[OF inv] LS by auto
    next
      fix n m assume nm: "n \<in> set L" "m \<in> set L" "n \<noteq> m"
      show "set (?kids n) \<inter> set (?kids m) = {}"
      proof (rule ccontr)
        assume "set (?kids n) \<inter> set (?kids m) \<noteq> {}"
        then obtain c c' x where "(c, x) \<in> set (children (h ! n))" "(c', x) \<in> set (children (h ! m))"
          by force
        moreover have "n \<in> S" "m \<in> S" using nm LS by auto
        ultimately have "n = m" using trie_parent_unique[OF inv] by blast
        then show False using nm by simp
      qed
    qed
    have bi2: "bfs_inv h0 h1 r S pth (Suc k) ?G1"
      by (rule bfs_inv_Suc[OF bi1]) (simp add: G1)
    obtain n where "n \<in> S" "length (pth n) = k"
      using False less.prems(4) by (cases L) auto
    then have "k \<le> M" using M by auto
    then have dec: "Suc M - Suc k < Suc M - k" by simp
    obtain h' k' where "bfs h1 r ?L1 = Some (Inr h')" "bfs_inv h0 h' r S pth k' (S - {r})"
      using less.hyps[OF dec bi2 _ G1 setL1 dL1] by auto
    then show ?thesis using eq by auto
  qed
qed

subsection \<open>The root while patterns are added\<close>

lemma add_loop_inv:
  assumes "trie_inv h r S pth" "node \<in> S" "add_loop h cnt node cs = (h', cnt', node')"
  shows "\<exists>S' pth'. trie_inv h' r S' pth' \<and> node' \<in> S' \<and> S \<subseteq> S' \<and>
           (\<forall>a\<in>S. pth' a = pth a) \<and> pth' node' = pth node @ cs"
  using assms
proof (induction cs arbitrary: h cnt node S pth)
  case Nil
  then show ?case by auto
next
  case (Cons c cs)
  have nlt: "node < length h" using trie_lt[OF Cons.prems(1,2)] .
  show ?case
  proof (cases "map_of (children (h ! node)) c")
    case None
    let ?S1 = "insert (length h) S"
    let ?pth1 = "pth(length h := pth node @ [c])"
    have al: "add_loop (add_node h cnt node c) (cnt + 1) (length h) cs = (h', cnt', node')"
      using Cons.prems(3) add_loop_Cons_None[OF None nlt] by simp
    have inv1: "trie_inv (add_node h cnt node c) r ?S1 ?pth1"
      using trie_inv_add_node[OF Cons.prems(1,2) None] .
    obtain S' pth' where r: "trie_inv h' r S' pth'" "node' \<in> S'" "?S1 \<subseteq> S'"
      "\<forall>a\<in>?S1. pth' a = ?pth1 a" "pth' node' = ?pth1 (length h) @ cs"
      using Cons.IH[OF inv1 _ al] by blast
    have "length h \<notin> S" using trie_lt[OF Cons.prems(1)] by blast
    then have "\<forall>a\<in>S. pth' a = pth a" using r(4) by auto
    then show ?thesis using r by (intro exI[of _ S'] exI[of _ pth']) auto
  next
    case (Some a)
    then have e: "(c, a) \<in> set (children (h ! node))" by (rule map_of_SomeD)
    have a: "a \<in> S" "pth a = pth node @ [c]" using trie_kid[OF Cons.prems(1,2) e] by auto
    have "add_loop h cnt a cs = (h', cnt', node')" using Cons.prems(3) Some by simp
    then show ?thesis using Cons.IH[OF Cons.prems(1) a(1)] a(2) by auto
  qed
qed

lemma same_fields_refl: "same_fields h h"
  by (simp add: same_fields_def)

lemma same_fields_trans: "same_fields h h1 \<Longrightarrow> same_fields h1 h2 \<Longrightarrow> same_fields h h2"
  unfolding same_fields_def by auto

lemma same_fields_add_node: "node < length h \<Longrightarrow> same_fields h (add_node h cnt node c)"
  unfolding same_fields_def add_node_def
  by (auto simp: nth_append nth_list_update)

lemma add_loop_fields:
  assumes "trie_inv h r S pth" "node \<in> S" "add_loop h cnt node cs = (h', cnt', node')"
  shows "same_fields h h'"
  using assms
proof (induction cs arbitrary: h cnt node S pth)
  case Nil
  then show ?case by (simp add: same_fields_refl)
next
  case (Cons c cs)
  have nlt: "node < length h" using trie_lt[OF Cons.prems(1,2)] .
  show ?case
  proof (cases "map_of (children (h ! node)) c")
    case None
    have al: "add_loop (add_node h cnt node c) (cnt + 1) (length h) cs = (h', cnt', node')"
      using Cons.prems(3) add_loop_Cons_None[OF None nlt] by simp
    have "same_fields (add_node h cnt node c) h'"
      using Cons.IH[OF trie_inv_add_node[OF Cons.prems(1,2) None] _ al] by simp
    then show ?thesis using same_fields_add_node[OF nlt] same_fields_trans by blast
  next
    case (Some a)
    then have e: "(c, a) \<in> set (children (h ! node))" by (rule map_of_SomeD)
    have a: "a \<in> S" using trie_kid[OF Cons.prems(1,2) e] by auto
    have "add_loop h cnt a cs = (h', cnt', node')" using Cons.prems(3) Some by simp
    then show ?thesis using Cons.IH[OF Cons.prems(1) a] by simp
  qed
qed

lemma add_pattern_root:
  assumes "root_ok h (root ac)" "add_pattern h ac p = (h', ac')"
  shows "root_ok h' (root ac') \<and> root ac' = root ac \<and>
         (p \<noteq> [] \<longrightarrow> output (h' ! root ac) = output (h ! root ac))"
proof -
  let ?r = "root ac"
  obtain S pth where inv: "trie_inv h ?r S pth"
    using assms(1) unfolding root_ok_def is_trie_def by blast
  have r: "?r \<in> S" "pth ?r = []" using trie_root[OF inv] by auto
  obtain h1 cnt node where al: "add_loop h (node_counter ac) ?r p = (h1, cnt, node)"
    by (metis prod_cases3)
  obtain S' pth' where inv': "trie_inv h1 ?r S' pth'" and n: "node \<in> S'"
    and pn: "pth' node = p"
    using add_loop_inv[OF inv r(1) al] r(2) by auto
  have sf: "same_fields h h1" using add_loop_fields[OF inv r(1) al] .
  have rl: "?r < length h" using trie_lt[OF inv r(1)] .
  define h2 where "h2 = h1[node := (h1 ! node)\<lparr>is_end := True\<rparr>]"
  have h': "h' = h2[node := (h2 ! node)\<lparr>output := output (h2 ! node) @ [p]\<rparr>]"
    and ac': "ac' = ac\<lparr>node_counter := cnt\<rparr>"
    using assms(2) al by (simp_all add: add_pattern_def Let_def h2_def)
  have "map children h' = map children h2"
    unfolding h' by (rule map_update_same) simp
  also have "\<dots> = map children h1"
    unfolding h2_def by (rule map_update_same) simp
  finally have mc: "map children h' = map children h1" .
  have "map node_id h' = map node_id h2"
    unfolding h' by (rule map_update_same) simp
  also have "\<dots> = map node_id h1"
    unfolding h2_def by (rule map_update_same) simp
  finally have mi: "map node_id h' = map node_id h1" .
  have "trie_inv h' ?r S' pth'" using trie_inv_same_children[OF inv' mc mi] .
  then have 1: "is_trie h' ?r" unfolding is_trie_def by blast
  have "failure (h' ! a) = failure (h1 ! a)" for a
    unfolding h' h2_def by (cases "a = node"; cases "node < length h1") (simp_all add: list_update_beyond not_less)
  then have 2: "failure (h' ! ?r) = Some ?r"
    using sf rl assms(1) unfolding same_fields_def root_ok_def by simp
  have 3: "output (h' ! ?r) = output (h ! ?r)" if "p \<noteq> []"
  proof -
    have "pth' ?r = []" using trie_root[OF inv'] by simp
    then have "node \<noteq> ?r" using pn that by auto
    then have "output (h' ! ?r) = output (h1 ! ?r)" unfolding h' h2_def by simp
    then show ?thesis using sf rl unfolding same_fields_def by simp
  qed
  show ?thesis using 1 2 3 ac' unfolding root_ok_def by simp
qed

lemma add_patterns_root:
  assumes "root_ok h (root ac)" "add_patterns h ac ps = (h', ac')"
  shows "root_ok h' (root ac') \<and> root ac' = root ac \<and>
         ([] \<notin> set ps \<longrightarrow> output (h' ! root ac) = output (h ! root ac))"
  using assms
proof (induction ps arbitrary: h ac)
  case Nil
  then show ?case by simp
next
  case (Cons p ps)
  obtain h1 ac1 where ap: "add_pattern h ac p = (h1, ac1)" by (cases "add_pattern h ac p")
  have 1: "root_ok h1 (root ac1)" "root ac1 = root ac"
    "p \<noteq> [] \<longrightarrow> output (h1 ! root ac) = output (h ! root ac)"
    using add_pattern_root[OF Cons.prems(1) ap] by auto
  have "add_patterns h1 ac1 ps = (h', ac')" using Cons.prems(2) ap by simp
  then have "root_ok h' (root ac') \<and> root ac' = root ac1 \<and>
         ([] \<notin> set ps \<longrightarrow> output (h' ! root ac1) = output (h1 ! root ac1))"
    using Cons.IH[OF 1(1)] by blast
  then show ?case using 1(2,3) by auto
qed

lemma init_root: "root_ok (fst (init h0)) (root (snd (init h0)))"
proof -
  have "failure (fst (init h0) ! root (snd (init h0))) = Some (root (snd (init h0)))"
    by (simp add: init_def Let_def)
  then show ?thesis using is_trie_init unfolding root_ok_def by simp
qed

lemma init_output: "output (fst (init h0) ! root (snd (init h0))) = []"
  by (simp add: init_def Let_def new_TrieNode_def)

subsection \<open>The first loop and the whole operation\<close>

lemma init_queue_inv:
  assumes "trie_inv h r S pth" "frame_inv h0 h S" "failure (h ! r) = Some r"
    and "set ks \<subseteq> set (children (h ! r))"
    and "\<forall>n\<in>G. failure (h ! n) = Some r" "\<forall>n\<in>S. output (h ! n) = output (h0 ! n)"
  shows "\<exists>h1. init_queue h r q ks = (h1, q @ map snd ks) \<and> trie_inv h1 r S pth \<and>
           frame_inv h0 h1 S \<and> failure (h1 ! r) = Some r \<and>
           (\<forall>n\<in>G \<union> snd ` set ks. failure (h1 ! n) = Some r) \<and>
           (\<forall>n\<in>S. output (h1 ! n) = output (h0 ! n))"
  using assms
proof (induction ks arbitrary: h q G)
  case Nil
  then show ?case by simp
next
  case (Cons a ks)
  obtain c x where a: "a = (c, x)" by (cases a)
  have rS: "r \<in> S" using trie_root[OF Cons.prems(1)] by simp
  have e: "(c, x) \<in> set (children (h ! r))" using Cons.prems(4) a by simp
  have x: "x \<in> S" "x \<noteq> r" using trie_kid[OF Cons.prems(1) rS e] by auto
  have xl: "x < length h" using trie_lt[OF Cons.prems(1) x(1)] .
  let ?h = "h[x := (h ! x)\<lparr>failure := Some r\<rparr>]"
  have mc: "map children ?h = map children h" by (rule map_update_same) simp
  have mi: "map node_id ?h = map node_id h" by (rule map_update_same) simp
  have 1: "trie_inv ?h r S pth" using trie_inv_same_children[OF Cons.prems(1) mc mi] .
  have 2: "frame_inv h0 ?h S"
  proof -
    have "map is_end ?h = map is_end h" "map node_id ?h = map node_id h"
      by (rule map_update_same, simp)+
    moreover have "?h ! b = h0 ! b" if "b < length h" "b \<notin> S" for b
    proof -
      have "b \<noteq> x" using that x by auto
      then show ?thesis using Cons.prems(2) that unfolding frame_inv_def by simp
    qed
    ultimately show ?thesis using Cons.prems(2) mc unfolding frame_inv_def by simp
  qed
  have 3: "failure (?h ! r) = Some r" using Cons.prems(3) x(2) by simp
  have 4: "set ks \<subseteq> set (children (?h ! r))"
    using Cons.prems(4) x(2) by auto
  have 5: "\<forall>n\<in>insert x G. failure (?h ! n) = Some r"
    using Cons.prems(5) xl by (auto simp: nth_list_update)
  have 6: "\<forall>n\<in>S. output (?h ! n) = output (h0 ! n)"
    using Cons.prems(6) xl by (auto simp: nth_list_update)
  obtain h1 where h1: "init_queue ?h r (q @ [x]) ks = (h1, (q @ [x]) @ map snd ks)"
    "trie_inv h1 r S pth" "frame_inv h0 h1 S" "failure (h1 ! r) = Some r"
    "\<forall>n\<in>insert x G \<union> snd ` set ks. failure (h1 ! n) = Some r"
    "\<forall>n\<in>S. output (h1 ! n) = output (h0 ! n)"
    using Cons.IH[OF 1 2 3 4 5 6, of "q @ [x]"] by blast
  have "init_queue h r q (a # ks) = (h1, q @ map snd (a # ks))" using h1(1) a by simp
  moreover have "\<forall>n\<in>G \<union> snd ` set (a # ks). failure (h1 ! n) = Some r"
    using h1(5) a by auto
  ultimately show ?case using h1(2,3,4,6) by blast
qed

lemma frame_inv_refl: "frame_inv h h S"
  by (simp add: frame_inv_def)

lemma depth_one:
  assumes inv: "trie_inv h r S pth"
  shows "snd ` set (children (h ! r)) = {n \<in> S. length (pth n) = 1}"
proof (intro equalityI subsetI)
  fix x assume "x \<in> snd ` set (children (h ! r))"
  then obtain c where e: "(c, x) \<in> set (children (h ! r))" by auto
  have rS: "r \<in> S" "pth r = []" using trie_root[OF inv] by auto
  show "x \<in> {n \<in> S. length (pth n) = 1}"
    using trie_kid(1,5)[OF inv rS(1) e] rS(2) by simp
next
  fix x assume "x \<in> {n \<in> S. length (pth n) = 1}"
  then have x: "x \<in> S" "length (pth x) = 1" by auto
  then have "x \<noteq> r" using trie_root[OF inv] by auto
  then obtain p c where p: "p \<in> S" "(c, x) \<in> set (children (h ! p))"
    using trie_parent[OF inv x(1)] by blast
  then have "pth p = []" using trie_kid(5)[OF inv p] x(2) by simp
  then have "p = r" using trie_depth0[OF inv p(1)] by simp
  then show "x \<in> snd ` set (children (h ! r))" using p(2) by force
qed

lemma init_bfs_inv:
  assumes inv: "trie_inv h r S pth" and fr: "failure (h ! r) = Some r"
  shows "\<exists>h1. init_queue h r [] (children (h ! r)) = (h1, map snd (children (h ! r))) \<and>
           bfs_inv h h1 r S pth 1 {n \<in> S. n \<noteq> r \<and> length (pth n) \<le> 1}"
proof -
  let ?D = "{n \<in> S. length (pth n) = 1}"
  obtain h1 where h1: "init_queue h r [] (children (h ! r)) = (h1, [] @ map snd (children (h ! r)))"
    "trie_inv h1 r S pth" "frame_inv h h1 S" "failure (h1 ! r) = Some r"
    "\<forall>n\<in>{} \<union> snd ` set (children (h ! r)). failure (h1 ! n) = Some r"
    "\<forall>n\<in>S. output (h1 ! n) = output (h ! n)"
    using init_queue_inv[OF inv frame_inv_refl fr subset_refl, of "{}" "[]"] by auto
  have fD: "\<forall>n\<in>?D. failure (h1 ! n) = Some r" using h1(5) depth_one[OF inv] by simp
  have rS: "r \<in> S" "pth r = []" using trie_root[OF inv] by auto
  have GD: "{n \<in> S. n \<noteq> r \<and> length (pth n) \<le> 1} = ?D"
  proof (intro equalityI subsetI)
    fix n assume "n \<in> {n \<in> S. n \<noteq> r \<and> length (pth n) \<le> 1}"
    then have n: "n \<in> S" "n \<noteq> r" "length (pth n) \<le> 1" by auto
    then have "pth n \<noteq> []" using trie_depth0[OF inv] by blast
    then have "length (pth n) = 1" using n(3) by (cases "pth n") auto
    then show "n \<in> ?D" using n(1) by simp
  next
    fix n assume "n \<in> ?D"
    then show "n \<in> {n \<in> S. n \<noteq> r \<and> length (pth n) \<le> 1}" using rS by auto
  qed
  have li: "links_inv h1 r S pth 1 ?D"
    unfolding links_inv_def
  proof (intro conjI)
    show "failure (h1 ! r) = Some r" by (rule h1(4))
    show "?D \<subseteq> S - {r}" using rS by auto
    show "\<forall>n\<in>S. n \<noteq> r \<and> length (pth n) \<le> 1 \<longrightarrow> n \<in> ?D" using GD by auto
    show "\<forall>n\<in>?D. length (pth n) \<le> Suc 1" by auto
    show "\<forall>n\<in>?D. \<exists>f\<in>S. failure (h1 ! n) = Some f \<and> length (pth f) < length (pth n)"
      using fD rS by auto
  qed
  have si: "step_inv h1 r S ?D"
    unfolding step_inv_def
  proof (intro ballI allI impI)
    fix p c n assume p: "p \<in> S" and a: "(c, n) \<in> set (children (h1 ! p)) \<and> n \<in> ?D"
    then have "length (pth n) = Suc (length (pth p))" using trie_kid(5)[OF h1(2) p] by blast
    then have "pth p = []" using a by simp
    then have "p = r" using trie_depth0[OF h1(2) p] by simp
    then show "if p = r then failure (h1 ! n) = Some r
         else \<exists>cand. follow (failure (h1 ! p)) h1 r c = Some (Inr cand) \<and>
                failure (h1 ! n) = Some (failure_target h1 r c n cand)"
      using fD a by simp
  qed
  have oi: "out_inv h h1 S pth ?D"
    unfolding out_inv_def using h1(6) by auto
  have "bfs_inv h h1 r S pth 1 ?D"
    unfolding bfs_inv_def using h1(2,3) li si oi by blast
  then show ?thesis using h1(1) GD by auto
qed

lemma build_total:
  assumes inv: "trie_inv h (root ac) S pth" and fr: "failure (h ! root ac) = Some (root ac)"
  shows "\<exists>h' k. build_failure_links h ac = Some (Inr h') \<and>
           bfs_inv h h' (root ac) S pth k (S - {root ac})"
proof -
  let ?r = "root ac"
  obtain h1 where h1: "init_queue h ?r [] (children (h ! ?r)) = (h1, map snd (children (h ! ?r)))"
    and bi: "bfs_inv h h1 ?r S pth 1 {n \<in> S. n \<noteq> ?r \<and> length (pth n) \<le> 1}"
    using init_bfs_inv[OF inv fr] by blast
  have fin: "finite S" using inv unfolding trie_inv_def by blast
  then have "finite ((\<lambda>n. length (pth n)) ` S)" by simp
  then obtain M where M: "\<forall>n\<in>S. length (pth n) \<le> M"
    unfolding finite_nat_set_iff_bounded_le by auto
  have rS: "?r \<in> S" using trie_root[OF inv] by simp
  have "\<exists>h' k'. bfs h1 ?r (map snd (children (h ! ?r))) = Some (Inr h') \<and>
           bfs_inv h h' ?r S pth k' (S - {?r})"
  proof (rule bfs_total[OF bi _ refl _ _ M])
    show "1 \<le> (1::nat)" by simp
    show "set (map snd (children (h ! ?r))) = {n \<in> S. length (pth n) = 1}"
      using depth_one[OF inv] by simp
    show "distinct (map snd (children (h ! ?r)))" using kids_distinct[OF inv rS] .
  qed
  then show ?thesis using h1 by (simp add: build_failure_links_def)
qed

subsection \<open>Paths and nodes\<close>

lemma walk_append:
  "walk h a (p @ q) = (case walk h a p of None \<Rightarrow> None | Some b \<Rightarrow> walk h b q)"
  by (induction p arbitrary: a) (auto split: option.splits)

lemma walk_pth:
  assumes inv: "trie_inv h r S pth"
  shows "a \<in> S \<Longrightarrow> walk h a p = Some n \<Longrightarrow> n \<in> S \<and> pth n = pth a @ p"
proof (induction p arbitrary: a)
  case Nil
  then show ?case by simp
next
  case (Cons c p)
  then obtain b where b: "map_of (children (h ! a)) c = Some b" "walk h b p = Some n"
    by (auto split: option.splits)
  then have "(c, b) \<in> set (children (h ! a))" by (auto dest: map_of_SomeD)
  then have "b \<in> S" "pth b = pth a @ [c]" using trie_kid[OF inv Cons.prems(1)] by auto
  then show ?case using Cons.IH[OF _ b(2)] by simp
qed

lemma walk_root:
  assumes inv: "trie_inv h r S pth" and w: "walk h r p = Some n"
  shows "n \<in> S" "pth n = p"
  using walk_pth[OF inv _ w] trie_root[OF inv] by auto

lemma walk_of_pth:
  assumes inv: "trie_inv h r S pth"
  shows "n \<in> S \<Longrightarrow> walk h r (pth n) = Some n"
proof (induction "length (pth n)" arbitrary: n rule: less_induct)
  case less
  show ?case
  proof (cases "n = r")
    case True
    then show ?thesis using trie_root[OF inv] by simp
  next
    case False
    then obtain p c where p: "p \<in> S" "(c, n) \<in> set (children (h ! p))"
      using trie_parent[OF inv less.prems] by blast
    have pn: "pth n = pth p @ [c]" using trie_kid(2)[OF inv p] .
    then have "walk h r (pth p) = Some p" using less.hyps[of p] p(1) by simp
    moreover have "map_of (children (h ! p)) c = Some n" using trie_map_of[OF inv p(1)] p(2) by simp
    ultimately show ?thesis by (simp add: pn walk_append)
  qed
qed

lemma walk_step:
  assumes "walk h r p = Some cur" "walk h r (p @ [c]) = Some child"
  shows "map_of (children (h ! cur)) c = Some child"
  using assms by (auto simp: walk_append split: option.splits)

lemma bfs_inv_all_links:
  assumes "bfs_inv h0 h r S pth k (S - {r})"
  shows "all_links h r S pth"
  using assms unfolding bfs_inv_def links_inv_def all_links_def by blast

lemma build_automaton_inv:
  "\<exists>h ac h' S pth k.
      add_patterns (fst (init h0)) (snd (init h0)) ps = (h, ac) \<and>
      build_automaton h0 ps = Some (Inr (h', ac)) \<and>
      build_failure_links h ac = Some (Inr h') \<and>
      bfs_inv h h' (root ac) S pth k (S - {root ac}) \<and>
      trie_inv h (root ac) S pth \<and>
      ([] \<notin> set ps \<longrightarrow> output (h ! root ac) = [])"
proof -
  obtain hi aci where i: "init h0 = (hi, aci)" by (cases "init h0")
  obtain h ac where ap: "add_patterns hi aci ps = (h, ac)" by (cases "add_patterns hi aci ps")
  have ro: "root_ok hi (root aci)" using init_root[of h0] i by simp
  have r: "root_ok h (root ac)" "root ac = root aci"
    "[] \<notin> set ps \<longrightarrow> output (h ! root aci) = output (hi ! root aci)"
    using add_patterns_root[OF ro ap] by auto
  have oe: "[] \<notin> set ps \<longrightarrow> output (h ! root ac) = []"
    using r(2,3) init_output[of h0] i by simp
  obtain S pth where inv: "trie_inv h (root ac) S pth"
    using r(1) unfolding root_ok_def is_trie_def by blast
  have fr: "failure (h ! root ac) = Some (root ac)" using r(1) unfolding root_ok_def by blast
  obtain h' k where b: "build_failure_links h ac = Some (Inr h')"
    "bfs_inv h h' (root ac) S pth k (S - {root ac})"
    using build_total[OF inv fr] by blast
  have "build_automaton h0 ps = Some (Inr (h', ac))"
    using i ap b(1) by (simp add: build_automaton_def)
  then show ?thesis using ap b inv oe i by auto
qed

subsection \<open>Frame and the rule of the specification\<close>

lemma shape_eq_refl: "shape_eq h h"
  by (simp add: shape_eq_def)

lemma shape_eq_trans: "shape_eq h h1 \<Longrightarrow> shape_eq h1 h2 \<Longrightarrow> shape_eq h h2"
  by (simp add: shape_eq_def)

lemma shape_eq_link_child: "shape_eq h (link_child h x t)"
  by (simp add: shape_eq_def link_child_maps)

lemma for_children_shape:
  "for_children h r q cur ks = Some (Inr (h', q')) \<Longrightarrow> shape_eq h h'"
proof (induction ks arbitrary: h q)
  case Nil
  then show ?case by (simp add: shape_eq_refl)
next
  case (Cons a ks)
  obtain c x where a: "a = (c, x)" by (cases a)
  obtain f where f: "follow (failure (h ! cur)) h r c = Some (Inr f)"
    and rest: "for_children (link_child h x (failure_target h r c x f)) r (q @ [x]) cur ks
        = Some (Inr (h', q'))"
    using Cons.prems unfolding a for_children_Cons
    by (auto split: option.splits sum.splits)
  show ?case
    using shape_eq_trans[OF shape_eq_link_child Cons.IH[OF rest]] .
qed

lemma init_queue_shape:
  "init_queue h r q ks = (h', q') \<Longrightarrow> shape_eq h h'"
proof (induction ks arbitrary: h q)
  case Nil
  then show ?case by (simp add: shape_eq_refl)
next
  case (Cons a ks)
  obtain c x where a: "a = (c, x)" by (cases a)
  let ?h = "h[x := (h ! x)\<lparr>failure := Some r\<rparr>]"
  have "shape_eq h ?h"
    unfolding shape_eq_def by (intro conjI; rule map_update_same; simp)
  moreover have "init_queue ?h r (q @ [x]) ks = (h', q')" using Cons.prems a by simp
  ultimately show ?case using Cons.IH shape_eq_trans by blast
qed

lemma bfs_shape:
  "bfs h r q = Some y \<Longrightarrow> y = Inr h' \<Longrightarrow> shape_eq h h'"
proof (induction arbitrary: h' rule: bfs.raw_induct[rotated, consumes 1, case_names step])
  case (step bfs' h r q y)
  show ?case
  proof (cases q)
    case Nil
    then show ?thesis using step.hyps step.prems by (auto simp: shape_eq_refl)
  next
    case (Cons cur q0)
    then obtain h1 q1 where fc: "for_children h r q0 cur (children (h ! cur)) = Some (Inr (h1, q1))"
      and b: "bfs' h1 r q1 = Some y"
      using step.hyps step.prems by (auto split: option.splits sum.splits)
    show ?thesis
      using shape_eq_trans[OF for_children_shape[OF fc] step.IH[OF b step.prems]] .
  qed
qed

lemma build_failure_links_shape:
  assumes "build_failure_links h ac = Some (Inr h')"
  shows "shape_eq h h'"
proof -
  obtain h1 q where i: "init_queue h (root ac) [] (children (h ! root ac)) = (h1, q)"
    by (cases "init_queue h (root ac) [] (children (h ! root ac))")
  then have "bfs h1 (root ac) q = Some (Inr h')"
    using assms by (simp add: build_failure_links_def)
  then show ?thesis using shape_eq_trans[OF init_queue_shape[OF i] bfs_shape] by blast
qed

lemma failure_target_spec: "failure_target h r c child cand = spec_failure h r c child cand"
  by (auto simp: failure_target_def spec_failure_def split: option.splits)

lemma follow_spec:
  "follow fo h r c = Some y \<Longrightarrow> y = Inr cand \<Longrightarrow>
   \<exists>f. fo = Some f \<and> spec_candidate h r c f cand"
proof (induction arbitrary: cand rule: follow.raw_induct[rotated, consumes 1, case_names step])
  case (step follow' fo h r c y)
  then obtain f where f: "fo = Some f" by (cases fo) auto
  show ?case
  proof (cases "f \<noteq> r \<and> map_of (children (h ! f)) c = None")
    case True
    then have "follow' (failure (h ! f)) h r c = Some y" using step.hyps f by simp
    then obtain f' where "failure (h ! f) = Some f'" "spec_candidate h r c f' cand"
      using step.IH step.prems by blast
    then show ?thesis using f True spec_candidate.advance by blast
  next
    case False
    then have "y = Inr f" using step.hyps f by auto
    then show ?thesis using f False step.prems spec_candidate.stop[of f r h c] by auto
  qed
qed

lemma final_step:
  assumes bi: "bfs_inv h0 h r S pth k (S - {r})"
    and cur: "cur \<in> S" and m: "map_of (children (h ! cur)) c = Some child"
  shows "\<exists>cand. follow (failure (h ! cur)) h r c = Some (Inr cand) \<and>
           failure (h ! child) = Some (failure_target h r c child cand)"
proof -
  have inv: "trie_inv h r S pth" and si: "step_inv h r S (S - {r})"
    using bi unfolding bfs_inv_def by blast+
  have e: "(c, child) \<in> set (children (h ! cur))" using m by (rule map_of_SomeD)
  have ch: "child \<in> S - {r}" using trie_kid(1,3)[OF inv cur e] by simp
  show ?thesis
  proof (cases "cur = r")
    case True
    have "failure (h ! r) = Some r" using bfs_inv_all_links[OF bi] unfolding all_links_def by blast
    then have "follow (failure (h ! cur)) h r c = Some (Inr r)"
      using True follow_stop[of r r h c] by simp
    moreover have "failure (h ! child) = Some r"
      using si cur e ch True unfolding step_inv_def by auto
    moreover have "failure_target h r c child r = r"
      using m True by (simp add: failure_target_def)
    ultimately show ?thesis by simp
  next
    case False
    then show ?thesis using si cur e ch unfolding step_inv_def by auto
  qed
qed

lemma final_superset:
  assumes bi: "bfs_inv h0 h r S pth k (S - {r})" and o: "output (h0 ! r) = []" and n: "n \<in> S"
  shows "\<exists>f. failure (h ! n) = Some f \<and> set (output (h ! f)) \<subseteq> set (output (h ! n))"
proof (cases "n = r")
  case True
  then show ?thesis using bfs_inv_all_links[OF bi] unfolding all_links_def by auto
next
  case False
  have inv: "trie_inv h r S pth" and si: "step_inv h r S (S - {r})"
    and oi: "out_inv h0 h S pth (S - {r})"
    using bi unfolding bfs_inv_def by blast+
  obtain f where f: "f \<in> S" "failure (h ! n) = Some f"
    using bfs_inv_all_links[OF bi] n False unfolding all_links_def by blast
  show ?thesis
  proof (cases "2 \<le> length (pth n)")
    case True
    then have "output (h ! n) = output (h0 ! n) @ output (h ! f)"
      using oi n False f(2) unfolding out_inv_def by simp
    then show ?thesis using f(2) by simp
  next
    case short: False
    obtain p c where p: "p \<in> S" "(c, n) \<in> set (children (h ! p))"
      using trie_parent[OF inv n False] by blast
    have "length (pth n) = Suc (length (pth p))" using trie_kid(5)[OF inv p] .
    then have "pth p = []" using short by (cases "pth p") auto
    then have pr: "p = r" using trie_depth0[OF inv p(1)] by simp
    have "failure (h ! n) = Some r"
      using si p n False pr unfolding step_inv_def by auto
    moreover have "output (h ! r) = []"
      using oi o trie_root[OF inv] unfolding out_inv_def by simp
    ultimately show ?thesis by simp
  qed
qed

subsection \<open>A second run\<close>

lemma all_links_for_follow:
  assumes "all_links h r S pth"
  shows "\<forall>n\<in>S. n \<noteq> r \<and> length (pth n) \<le> k \<longrightarrow>
           (\<exists>f\<in>S. failure (h ! n) = Some f \<and> length (pth f) < length (pth n))"
  using assms unfolding all_links_def by blast

lemma step_invD:
  assumes "step_inv h r S G" "p \<in> S" "(c, n) \<in> set (children (h ! p))" "n \<in> G"
  shows "if p = r then failure (h ! n) = Some r
         else \<exists>cand. follow (failure (h ! p)) h r c = Some (Inr cand) \<and>
                failure (h ! n) = Some (failure_target h r c n cand)"
  using assms unfolding step_inv_def by blast

lemma links_unique:
  assumes inv: "trie_inv h r S pth"
    and al: "all_links h r S pth" and si: "step_inv h r S (S - {r})"
    and al2: "all_links h2 r S pth" and si2: "step_inv h2 r S (S - {r})"
    and ch: "map children h2 = map children h"
  shows "n \<in> S \<Longrightarrow> failure (h2 ! n) = failure (h ! n)"
proof (induction "length (pth n)" arbitrary: n rule: less_induct)
  case less
  have kids: "children (h2 ! a) = children (h ! a)" if "a \<in> S" for a
    using same_children_nth[OF ch trie_lt[OF inv that]] .
  show ?case
  proof (cases "n = r")
    case True
    then show ?thesis using al al2 unfolding all_links_def by simp
  next
    case False
    obtain p c where p: "p \<in> S" "(c, n) \<in> set (children (h ! p))"
      using trie_parent[OF inv less.prems False] by blast
    have dn: "length (pth n) = Suc (length (pth p))" using trie_kid(5)[OF inv p] .
    have n: "n \<in> S - {r}" using less.prems False by simp
    have e2: "(c, n) \<in> set (children (h2 ! p))" using p kids by simp
    show ?thesis
    proof (cases "p = r")
      case True
      then show ?thesis using step_invD[OF si p n] step_invD[OF si2 p(1) e2 n] by simp
    next
      case pr: False
      obtain cand where c1: "follow (failure (h ! p)) h r c = Some (Inr cand)"
        "failure (h ! n) = Some (failure_target h r c n cand)"
        using step_invD[OF si p n] pr by auto
      obtain cand2 where c2: "follow (failure (h2 ! p)) h2 r c = Some (Inr cand2)"
        "failure (h2 ! n) = Some (failure_target h2 r c n cand2)"
        using step_invD[OF si2 p(1) e2 n] pr by auto
      have fp: "failure (h2 ! p) = failure (h ! p)" using less.hyps[of p] dn p(1) by simp
      obtain f0 where f0: "f0 \<in> S" "failure (h ! p) = Some f0" "length (pth f0) < length (pth p)"
        using al p(1) pr unfolding all_links_def by blast
      have "follow (Some f0) h2 r c = follow (Some f0) h r c"
      proof (rule follow_frame[OF all_links_for_follow[OF al] _ ch _ f0(1)])
        show "\<forall>a\<in>S. a < length h" using trie_lt[OF inv] by blast
        show "\<forall>m\<in>S. length (pth m) \<le> length (pth p) \<longrightarrow> failure (h2 ! m) = failure (h ! m)"
          using less.hyps dn by simp
        show "length (pth f0) \<le> length (pth p)" using f0(3) by simp
      qed
      then have ce: "cand2 = cand" using c1(1) c2(1) fp f0(2) by simp
      obtain cd where "cd \<in> S" "follow (Some f0) h r c = Some (Inr cd)"
        using follow_total[OF all_links_for_follow[OF al] f0(1) order_refl, of c] by blast
      then have "cand \<in> S" using c1(1) f0(2) by simp
      then have "failure_target h2 r c n cand = failure_target h r c n cand"
        using kids by (simp add: failure_target_def)
      then show ?thesis using c1(2) c2(2) ce by simp
    qed
  qed
qed

lemma rebuild_same_links:
  assumes b1: "bfs_inv h0 h1 r S pth k (S - {r})" and b2: "bfs_inv h1 h2 r S pth k2 (S - {r})"
  shows "map failure h2 = map failure h1"
proof -
  have inv: "trie_inv h1 r S pth" and si: "step_inv h1 r S (S - {r})"
    using b1 unfolding bfs_inv_def by blast+
  have si2: "step_inv h2 r S (S - {r})" and fi: "frame_inv h1 h2 S"
    using b2 unfolding bfs_inv_def by blast+
  have ch: "map children h2 = map children h1" using fi unfolding frame_inv_def by blast
  then have len: "length h2 = length h1" by (rule map_eq_imp_length_eq)
  have "failure (h2 ! a) = failure (h1 ! a)" if "a < length h1" for a
  proof (cases "a \<in> S")
    case True
    then show ?thesis
      using links_unique[OF inv bfs_inv_all_links[OF b1] si bfs_inv_all_links[OF b2] si2 ch]
      by blast
  next
    case False
    then show ?thesis using fi that len unfolding frame_inv_def by simp
  qed
  then show ?thesis using len by (intro nth_equalityI) simp_all
qed

lemma rebuild_same_output_sets:
  assumes b1: "bfs_inv h0 h1 r S pth k (S - {r})" and b2: "bfs_inv h1 h2 r S pth k2 (S - {r})"
  shows "map (\<lambda>n. set (output n)) h2 = map (\<lambda>n. set (output n)) h1"
proof -
  have inv: "trie_inv h1 r S pth" and o1: "out_inv h0 h1 S pth (S - {r})"
    using b1 unfolding bfs_inv_def by blast+
  have o2: "out_inv h1 h2 S pth (S - {r})" and fi: "frame_inv h1 h2 S"
    using b2 unfolding bfs_inv_def by blast+
  have "map children h2 = map children h1" using fi unfolding frame_inv_def by blast
  then have len: "length h2 = length h1" by (rule map_eq_imp_length_eq)
  have fl: "failure (h2 ! a) = failure (h1 ! a)" if "a \<in> S" for a
  proof -
    have "map failure h2 ! a = map failure h1 ! a" using rebuild_same_links[OF b1 b2] by simp
    then show ?thesis using trie_lt[OF inv that] len by simp
  qed
  have inS: "n \<in> S \<Longrightarrow> set (output (h2 ! n)) = set (output (h1 ! n))" for n
  proof (induction "length (pth n)" arbitrary: n rule: less_induct)
    case less
    show ?case
    proof (cases "n \<in> S - {r} \<and> 2 \<le> length (pth n)")
      case False
      then have "output (h2 ! n) = output (h1 ! n)"
        using o2 less.prems unfolding out_inv_def by auto
      then show ?thesis by simp
    next
      case True
      then obtain f where f: "f \<in> S" "failure (h1 ! n) = Some f"
        "length (pth f) < length (pth n)"
        using bfs_inv_all_links[OF b1] unfolding all_links_def by blast
      have "output (h2 ! n) = output (h1 ! n) @ output (h2 ! f)"
        using o2 less.prems True f(2) fl[OF less.prems] unfolding out_inv_def by simp
      moreover have "output (h1 ! n) = output (h0 ! n) @ output (h1 ! f)"
        using o1 less.prems True f(2) unfolding out_inv_def by simp
      moreover have "set (output (h2 ! f)) = set (output (h1 ! f))"
        using less.hyps[OF f(3) f(1)] .
      ultimately show ?thesis by auto
    qed
  qed
  have "set (output (h2 ! a)) = set (output (h1 ! a))" if "a < length h1" for a
  proof (cases "a \<in> S")
    case True
    then show ?thesis using inS by blast
  next
    case False
    then show ?thesis using fi that len unfolding frame_inv_def by simp
  qed
  then show ?thesis using len by (intro nth_equalityI) simp_all
qed

lemma rebuild_total:
  assumes b1: "bfs_inv h0 h1 (root ac) S pth k (S - {root ac})"
  shows "\<exists>h2 k2. build_failure_links h1 ac = Some (Inr h2) \<and>
           bfs_inv h1 h2 (root ac) S pth k2 (S - {root ac})"
proof -
  have inv: "trie_inv h1 (root ac) S pth" using b1 unfolding bfs_inv_def by blast
  have "failure (h1 ! root ac) = Some (root ac)"
    using bfs_inv_all_links[OF b1] unfolding all_links_def by blast
  then show ?thesis using build_total[OF inv] by blast
qed

lemma built_root_lt:
  assumes "add_patterns (fst (init h0)) (snd (init h0)) ps = (h, ac)"
  shows "root ac < length h"
proof -
  have "root_ok h (root ac)" using add_patterns_root[OF init_root assms] by blast
  then obtain S pth where "trie_inv h (root ac) S pth"
    unfolding root_ok_def is_trie_def by blast
  then show ?thesis using trie_lt trie_root by blast
qed

subsection \<open>Searching for a node\<close>

lemma first_result_all_None:
  "(\<And>x. x \<in> set xs \<Longrightarrow> f x = Some None) \<Longrightarrow> first_result f xs = Some None"
  by (induction xs) simp_all

lemma first_result_unique:
  assumes "x \<in> set xs" "f x = Some (Some v)"
    "\<And>y. y \<in> set xs \<Longrightarrow> y \<noteq> x \<Longrightarrow> f y = Some None"
  shows "first_result f xs = Some (Some v)"
  using assms
proof (induction xs)
  case Nil
  then show ?case by simp
next
  case (Cons a xs)
  show ?case
  proof (cases "a = x")
    case True
    then show ?thesis using Cons.prems(2) by simp
  next
    case False
    then have "f a = Some None" using Cons.prems(3) by simp
    moreover have "first_result f xs = Some (Some v)"
      using Cons.IH Cons.prems False by auto
    ultimately show ?thesis by simp
  qed
qed

lemma find_path_unfold:
  "find_path h t node path =
     (if node = t then Some (Some path)
      else first_result (\<lambda>x. find_path h t (snd x) (path @ [fst x])) (children (h ! node)))"
  by (subst find_path.simps) simp

lemma trie_bound:
  assumes "trie_inv h r S pth"
  shows "\<exists>M. \<forall>n\<in>S. length (pth n) \<le> M"
proof -
  have "finite S" using assms unfolding trie_inv_def by blast
  then have "finite ((\<lambda>n. length (pth n)) ` S)" by simp
  then show ?thesis unfolding finite_nat_set_iff_bounded_le by auto
qed

lemma find_path_absent:
  assumes inv: "trie_inv h r S pth" and M: "\<forall>n\<in>S. length (pth n) \<le> M"
    and no: "\<not> (t \<in> S \<and> (\<exists>rest. pth t = pth node @ rest))"
  shows "node \<in> S \<Longrightarrow> find_path h t node path = Some None"
  using no
proof (induction "M - length (pth node)" arbitrary: node path rule: less_induct)
  case less
  have nt: "node \<noteq> t" using less.prems by auto
  have "find_path h t (snd x) (path @ [fst x]) = Some None"
    if x: "x \<in> set (children (h ! node))" for x
  proof -
    have e: "(fst x, snd x) \<in> set (children (h ! node))" using x by simp
    have k: "snd x \<in> S" "pth (snd x) = pth node @ [fst x]"
      using trie_kid(1,2)[OF inv less.prems(1) e] by auto
    have "length (pth (snd x)) \<le> M" using M k(1) by blast
    then have d: "M - length (pth (snd x)) < M - length (pth node)" using k(2) by simp
    have "\<not> (t \<in> S \<and> (\<exists>rest. pth t = pth (snd x) @ rest))"
      using less.prems(2) k(2) by auto
    then show ?thesis using less.hyps[OF d k(1)] by simp
  qed
  then have "first_result (\<lambda>x. find_path h t (snd x) (path @ [fst x])) (children (h ! node))
      = Some None"
    by (rule first_result_all_None)
  then show ?case using nt by (subst find_path_unfold) simp
qed

lemma find_path_present:
  assumes inv: "trie_inv h r S pth" and t: "t \<in> S"
  shows "node \<in> S \<Longrightarrow> pth t = pth node @ rest \<Longrightarrow>
         find_path h t node path = Some (Some (path @ rest))"
proof (induction rest arbitrary: node path)
  case Nil
  then have "node = t" using inv t unfolding trie_inv_def by (auto dest: inj_onD)
  then show ?case by (subst find_path_unfold) simp
next
  case (Cons c rest)
  obtain M where M: "\<forall>n\<in>S. length (pth n) \<le> M" using trie_bound[OF inv] by blast
  have nt: "node \<noteq> t" using Cons.prems(2) by auto
  have wn: "walk h r (pth node) = Some node" using walk_of_pth[OF inv Cons.prems(1)] .
  have "walk h r (pth node @ c # rest) = Some t"
    using walk_of_pth[OF inv t] Cons.prems(2) by simp
  then have "walk h node (c # rest) = Some t" using wn by (simp add: walk_append)
  then obtain x where x: "map_of (children (h ! node)) c = Some x" "walk h x rest = Some t"
    by (auto split: option.splits)
  have e: "(c, x) \<in> set (children (h ! node))" using x(1) by (rule map_of_SomeD)
  have k: "x \<in> S" "pth x = pth node @ [c]" using trie_kid(1,2)[OF inv Cons.prems(1) e] by auto
  have px: "pth t = pth x @ rest" using Cons.prems(2) k(2) by simp
  have 1: "find_path h t x (path @ [c]) = Some (Some ((path @ [c]) @ rest))"
    using Cons.IH[OF k(1) px] .
  have 2: "find_path h t (snd y) (path @ [fst y]) = Some None"
    if y: "y \<in> set (children (h ! node))" "y \<noteq> (c, x)" for y
  proof -
    have e': "(fst y, snd y) \<in> set (children (h ! node))" using y(1) by simp
    have ky: "snd y \<in> S" "pth (snd y) = pth node @ [fst y]"
      using trie_kid(1,2)[OF inv Cons.prems(1) e'] by auto
    have "fst y \<noteq> c"
    proof
      assume "fst y = c"
      then have "map_of (children (h ! node)) c = Some (snd y)"
        using trie_map_of[OF inv Cons.prems(1)] e' by simp
      then show False using x(1) y(2) by (auto simp: prod_eq_iff \<open>fst y = c\<close>)
    qed
    then have "\<not> (t \<in> S \<and> (\<exists>rest'. pth t = pth (snd y) @ rest'))"
      using Cons.prems(2) ky(2) by auto
    then show ?thesis using find_path_absent[OF inv M _ ky(1)] by blast
  qed
  have "first_result (\<lambda>y. find_path h t (snd y) (path @ [fst y])) (children (h ! node))
        = Some (Some ((path @ [c]) @ rest))"
    by (rule first_result_unique[OF e]) (use 1 2 in auto)
  then show ?case using nt by (subst find_path_unfold) simp
qed

lemma get_path_to_node_trie:
  assumes inv: "trie_inv h (root ac) S pth"
  shows "get_path_to_node h ac t =
           Some (if t = root ac then ''ROOT'' else if t \<in> S then pth t else ''UNKNOWN'')"
proof (cases "t = root ac")
  case True
  then show ?thesis by (simp add: get_path_to_node_def)
next
  case False
  have r: "root ac \<in> S" "pth (root ac) = []" using trie_root[OF inv] by auto
  show ?thesis
  proof (cases "t \<in> S")
    case True
    have "find_path h t (root ac) [] = Some (Some ([] @ pth t))"
      using find_path_present[OF inv True r(1), of "pth t" "[]"] r(2) by simp
    moreover have "pth t \<noteq> []" using trie_depth0[OF inv True] False by blast
    ultimately show ?thesis using False True by (simp add: get_path_to_node_def)
  next
    case nS: False
    obtain M where M: "\<forall>n\<in>S. length (pth n) \<le> M" using trie_bound[OF inv] by blast
    have "find_path h t (root ac) [] = Some None"
      using find_path_absent[OF inv M _ r(1)] nS by blast
    then show ?thesis using False nS by (simp add: get_path_to_node_def)
  qed
qed

lemma trie_nodes_walk:
  assumes inv: "trie_inv h r S pth"
  shows "t \<in> S \<longleftrightarrow> (\<exists>p. walk h r p = Some t)"
  using walk_root(1)[OF inv] walk_of_pth[OF inv] by blast

lemma trie_inv_append:
  assumes "trie_inv h r S pth"
  shows "trie_inv (h @ xs) r S pth"
proof -
  have lt: "\<And>a. a \<in> S \<Longrightarrow> a < length h" using assms unfolding trie_inv_def by blast
  have "(h @ xs) ! a = h ! a" if "a \<in> S" for a using lt[OF that] by (simp add: nth_append)
  then show ?thesis using assms unfolding trie_inv_def by (simp add: lt trans_less_add1)
qed

lemma build_automaton_trie:
  "\<exists>h ac S pth. build_automaton h0 ps = Some (Inr (h, ac)) \<and> trie_inv h (root ac) S pth \<and>
     all_links h (root ac) S pth"
proof -
  obtain h ac h' S pth k where
    b: "build_automaton h0 ps = Some (Inr (h', ac))"
    and bi: "bfs_inv h h' (root ac) S pth k (S - {root ac})"
    using build_automaton_inv[of h0 ps] by blast
  have "trie_inv h' (root ac) S pth" using bi unfolding bfs_inv_def by blast
  then show ?thesis using b bfs_inv_all_links[OF bi] by blast
qed

subsection \<open>Orders and the traversal loop\<close>

lemma distinct_map_insort_key:
  "distinct (map f (insort_key f x xs)) \<longleftrightarrow> f x \<notin> f ` set xs \<and> distinct (map f xs)"
  by (induction xs) (auto simp: set_insort_key)

lemma distinct_map_sort_key: "distinct (map f (sort_key f xs)) \<longleftrightarrow> distinct (map f xs)"
  by (induction xs) (simp_all add: distinct_map_insort_key)

lemma string_less_append: "x \<noteq> [] \<Longrightarrow> (p::'a::linorder list) < p @ x"
  by (induction p) (auto simp: neq_Nil_conv)

lemma string_less_branch: "(c::'a::linorder) < d \<Longrightarrow> p @ c # x < p @ d # y"
  by (induction p) auto

lemma traverse_unfold:
  "traverse h ac node path result =
     Option.bind
       (if node_id (h ! node) \<noteq> None
        then Option.bind
               (case failure (h ! node) of
                  Some f \<Rightarrow> get_path_to_node h ac f
                | None \<Rightarrow> Some ''None'')
               (\<lambda>failure_path. Some (result @ [link_of h node path failure_path]))
        else Some result)
       (for_each (\<lambda>x res. traverse h ac (snd x) (path @ [fst x]) res)
          (sort_key fst (children (h ! node))))"
  by (subst traverse.simps) simp

lemma traverse_node:
  assumes inv: "trie_inv h (root ac) S pth" and n: "node \<in> S"
  shows "traverse h ac node (pth node) result =
           for_each (\<lambda>x res. traverse h ac (snd x) (pth node @ [fst x]) res)
             (sort_key fst (children (h ! node))) (result @ [rec_of h ac S pth node])"
proof -
  have id: "node_id (h ! node) \<noteq> None" using inv n unfolding trie_inv_def by blast
  have "(case failure (h ! node) of Some f \<Rightarrow> get_path_to_node h ac f | None \<Rightarrow> Some ''None'')
      = Some (case failure (h ! node) of
          Some f \<Rightarrow> if f = root ac then ''ROOT'' else if f \<in> S then pth f else ''UNKNOWN''
        | None \<Rightarrow> ''None'')"
    by (cases "failure (h ! node)") (simp_all add: get_path_to_node_trie[OF inv])
  then show ?thesis using id by (subst traverse_unfold) (simp add: rec_of_def)
qed

lemma for_each_lists:
  assumes "\<And>x. x \<in> set ks \<Longrightarrow> \<exists>ns. (\<forall>res. F x res = Some (res @ map g ns)) \<and> Q x ns"
  shows "\<exists>nss. list_all2 Q ks nss \<and> (\<forall>res. for_each F ks res = Some (res @ map g (concat nss)))"
  using assms
proof (induction ks)
  case Nil
  then show ?case by simp
next
  case (Cons k ks)
  obtain ns where ns: "\<forall>res. F k res = Some (res @ map g ns)" "Q k ns"
    using Cons.prems[of k] by auto
  obtain nss where nss: "list_all2 Q ks nss"
    "\<forall>res. for_each F ks res = Some (res @ map g (concat nss))"
    using Cons.IH Cons.prems by auto
  have "list_all2 Q (k # ks) (ns # nss)" using ns(2) nss(1) by simp
  moreover have "\<forall>res. for_each F (k # ks) res = Some (res @ map g (concat (ns # nss)))"
    using ns(1) nss(2) by simp
  ultimately show ?case by blast
qed

lemma list_all2_set2: "list_all2 P xs ys \<Longrightarrow> y \<in> set ys \<Longrightarrow> \<exists>x\<in>set xs. P x y"
  by (induction rule: list_all2_induct) auto

lemma concat_sorted:
  fixes ks :: "(char \<times> nat) list" and pth :: "nat \<Rightarrow> string"
  assumes "sorted_wrt (<) (map fst ks)"
    and "list_all2 (\<lambda>k ns. sorted_wrt (<) (map pth ns) \<and>
            (\<forall>n\<in>set ns. \<exists>rest. pth n = p @ fst k # rest)) ks nss"
  shows "sorted_wrt (<) (map pth (concat nss))"
  using assms(2,1)
proof (induction rule: list_all2_induct)
  case Nil
  then show ?case by simp
next
  case (Cons k ks ns nss)
  have later: "pth a < pth b" if a: "a \<in> set ns" and b: "b \<in> set (concat nss)" for a b
  proof -
    obtain ms where ms: "ms \<in> set nss" "b \<in> set ms" using b by auto
    then obtain k' where k': "k' \<in> set ks" "\<forall>n\<in>set ms. \<exists>rest. pth n = p @ fst k' # rest"
      using list_all2_set2[OF Cons.hyps(2) ms(1)] by blast
    have "fst k < fst k'" using Cons.prems k'(1) by auto
    moreover obtain ra where "pth a = p @ fst k # ra" using Cons.hyps(1) a by blast
    moreover obtain rb where "pth b = p @ fst k' # rb" using k'(2) ms(2) by blast
    ultimately show ?thesis using string_less_branch by simp
  qed
  have "sorted_wrt (<) (map pth (concat nss))" using Cons.IH Cons.prems by simp
  moreover have "\<forall>a\<in>set (map pth ns). \<forall>b\<in>set (map pth (concat nss)). a < b"
    using later by auto
  ultimately show ?case using Cons.hyps(1) by (simp add: sorted_wrt_append del: set_concat set_map)
qed

lemma concat_dfs:
  assumes "list_all2 (\<lambda>k ns. dfs_paths h (snd k) (p @ [fst k]) (map pth ns)) ks nss"
  shows "dfs_children h p ks (map pth (concat nss))"
  using assms
proof (induction rule: list_all2_induct)
  case Nil
  then show ?case by (simp add: dfs_paths_dfs_children.no_child)
next
  case (Cons k ks ns nss)
  have "dfs_children h p ((fst k, snd k) # ks) (map pth ns @ map pth (concat nss))"
    using Cons.hyps(1) Cons.IH by (rule dfs_paths_dfs_children.next_child)
  then show ?case by simp
qed

subsection \<open>The traversal\<close>

lemma list_all2_set1: "list_all2 P xs ys \<Longrightarrow> x \<in> set xs \<Longrightarrow> \<exists>y\<in>set ys. P x y"
  by (induction rule: list_all2_induct) auto

lemma trie_extend:
  assumes inv: "trie_inv h r S pth" and node: "node \<in> S" and n: "n \<in> S"
    and p: "pth n = pth node @ c # rest"
  shows "\<exists>x. (c, x) \<in> set (children (h ! node)) \<and> pth n = pth x @ rest"
proof -
  have wn: "walk h r (pth node) = Some node" using walk_of_pth[OF inv node] .
  have "walk h r (pth node @ c # rest) = Some n" using walk_of_pth[OF inv n] p by simp
  then have "walk h node (c # rest) = Some n" using wn by (simp add: walk_append)
  then obtain x where x: "map_of (children (h ! node)) c = Some x" "walk h x rest = Some n"
    by (auto split: option.splits)
  have e: "(c, x) \<in> set (children (h ! node))" using x(1) by (rule map_of_SomeD)
  have "pth x = pth node @ [c]" using trie_kid(2)[OF inv node e] .
  then show ?thesis using e p by auto
qed

lemma traverse_char:
  assumes inv: "trie_inv h (root ac) S pth" and M: "\<forall>n\<in>S. length (pth n) \<le> M"
  shows "node \<in> S \<Longrightarrow>
         \<exists>ns. (\<forall>res. traverse h ac node (pth node) res = Some (res @ map (rec_of h ac S pth) ns)) \<and>
              subtree_list h S pth node ns"
proof (induction "M - length (pth node)" arbitrary: node rule: less_induct)
  case less
  let ?ks = "sort_key fst (children (h ! node))"
  let ?F = "\<lambda>x res. traverse h ac (snd x) (pth node @ [fst x]) res"
  let ?Q = "\<lambda>x ns. subtree_list h S pth (snd x) ns"
  let ?g = "rec_of h ac S pth"
  have kid: "snd x \<in> S \<and> pth (snd x) = pth node @ [fst x]" if "x \<in> set ?ks" for x
  proof -
    have "(fst x, snd x) \<in> set (children (h ! node))" using that by simp
    then show ?thesis using trie_kid(1,2)[OF inv less.prems] by blast
  qed
  have each: "\<exists>ns. (\<forall>res. ?F x res = Some (res @ map ?g ns)) \<and> ?Q x ns" if x: "x \<in> set ?ks" for x
  proof -
    have k: "snd x \<in> S" "pth (snd x) = pth node @ [fst x]" using kid[OF x] by auto
    have "length (pth (snd x)) \<le> M" using M k(1) by blast
    then have "M - length (pth (snd x)) < M - length (pth node)" using k(2) by simp
    then show ?thesis using less.hyps[OF _ k(1)] k(2) by simp
  qed
  obtain nss where nss: "list_all2 ?Q ?ks nss"
    "\<forall>res. for_each ?F ?ks res = Some (res @ map ?g (concat nss))"
    using for_each_lists[of ?ks ?F ?g ?Q] each by blast
  have tr: "\<forall>res. traverse h ac node (pth node) res = Some (res @ map ?g (node # concat nss))"
    using nss(2) by (simp add: traverse_node[OF inv less.prems])
  have below: "m \<in> S \<and> (\<exists>c rest. pth m = pth node @ c # rest)" if m: "m \<in> set (concat nss)" for m
  proof -
    obtain ms where ms: "ms \<in> set nss" "m \<in> set ms" using m by auto
    obtain x where x: "x \<in> set ?ks" "subtree_list h S pth (snd x) ms"
      using list_all2_set2[OF nss(1) ms(1)] by blast
    then obtain rest where "m \<in> S" "pth m = pth (snd x) @ rest"
      using ms(2) unfolding subtree_list_def by auto
    then show ?thesis using kid[OF x(1)] by auto
  qed
  have set_eq: "set (node # concat nss) = {n \<in> S. \<exists>rest. pth n = pth node @ rest}"
  proof (intro equalityI subsetI)
    fix m assume "m \<in> set (node # concat nss)"
    then show "m \<in> {n \<in> S. \<exists>rest. pth n = pth node @ rest}"
      using below less.prems by auto
  next
    fix n assume "n \<in> {n \<in> S. \<exists>rest. pth n = pth node @ rest}"
    then obtain rest where n: "n \<in> S" "pth n = pth node @ rest" by auto
    show "n \<in> set (node # concat nss)"
    proof (cases rest)
      case Nil
      then have "n = node" using n inv less.prems unfolding trie_inv_def by (auto dest: inj_onD)
      then show ?thesis by simp
    next
      case (Cons c rest')
      obtain x where x: "(c, x) \<in> set (children (h ! node))" "pth n = pth x @ rest'"
        using trie_extend[OF inv less.prems n(1)] n(2) Cons by blast
      then have "(c, x) \<in> set ?ks" by simp
      then obtain ms where "ms \<in> set nss" "subtree_list h S pth x ms"
        using list_all2_set1[OF nss(1)] by fastforce
      then have "n \<in> set ms" "ms \<in> set nss" using n(1) x(2) unfolding subtree_list_def by auto
      then show ?thesis by auto
    qed
  qed
  have keys: "sorted_wrt (<) (map fst ?ks)"
  proof -
    have "distinct (map fst (children (h ! node)))" using inv less.prems unfolding trie_inv_def by blast
    then show ?thesis by (simp add: strict_sorted_iff distinct_map_sort_key sorted_sort_key)
  qed
  have l1: "list_all2 (\<lambda>k ns. sorted_wrt (<) (map pth ns) \<and>
            (\<forall>n\<in>set ns. \<exists>rest. pth n = pth node @ fst k # rest)) ?ks nss"
  proof (rule list.rel_mono_strong[OF nss(1)])
    fix k ns assume k: "k \<in> set ?ks" and q: "subtree_list h S pth (snd k) ns"
    have "pth (snd k) = pth node @ [fst k]" using kid[OF k] by simp
    then show "sorted_wrt (<) (map pth ns) \<and> (\<forall>n\<in>set ns. \<exists>rest. pth n = pth node @ fst k # rest)"
      using q unfolding subtree_list_def by auto
  qed
  have l2: "list_all2 (\<lambda>k ns. dfs_paths h (snd k) (pth node @ [fst k]) (map pth ns)) ?ks nss"
  proof (rule list.rel_mono_strong[OF nss(1)])
    fix k ns assume k: "k \<in> set ?ks" and q: "subtree_list h S pth (snd k) ns"
    have "pth (snd k) = pth node @ [fst k]" using kid[OF k] by simp
    then show "dfs_paths h (snd k) (pth node @ [fst k]) (map pth ns)"
      using q unfolding subtree_list_def by auto
  qed
  have s1: "sorted_wrt (<) (map pth (concat nss))" using concat_sorted[OF keys l1] .
  have s2: "\<forall>y\<in>set (map pth (concat nss)). pth node < y"
  proof
    fix y assume "y \<in> set (map pth (concat nss))"
    then obtain m where "m \<in> set (concat nss)" "y = pth m" by auto
    then obtain c rest where "y = pth node @ c # rest" using below by blast
    then show "pth node < y" using string_less_append[of "c # rest" "pth node"] by simp
  qed
  have srt: "sorted_wrt (<) (map pth (node # concat nss))"
    using s1 s2 by (simp del: set_concat set_map)
  have "dfs_children h (pth node) ?ks (map pth (concat nss))" using concat_dfs[OF l2] .
  then have dfs: "dfs_paths h node (pth node) (map pth (node # concat nss))"
    using dfs_paths_dfs_children.visit[of h "pth node" node] by simp
  have "subtree_list h S pth node (node # concat nss)"
    unfolding subtree_list_def using set_eq srt dfs by blast
  then show ?case using tr by blast
qed

lemma spec_record_rec_of:
  assumes inv: "trie_inv h (root ac) S pth" and al: "all_links h (root ac) S pth"
    and n: "n \<in> S"
  shows "spec_record h (root ac) (pth n) (rec_of h ac S pth n)"
proof -
  have r: "root ac \<in> S" "pth (root ac) = []" using trie_root[OF inv] by auto
  obtain f where f: "f \<in> S" "failure (h ! n) = Some f"
    using al n r(1) unfolding all_links_def by (cases "n = root ac") auto
  have fr: "f = root ac \<longleftrightarrow> pth f = []" using trie_depth0[OF inv f(1)] r(2) by auto
  have "rec_of h ac S pth n =
        \<lparr>link_node_id = node_id (h ! n),
         link_path = (if pth n = [] then ''ROOT'' else pth n),
         link_failure_node_id = node_id (h ! f),
         link_failure_path = (if pth f = [] then ''ROOT'' else pth f),
         link_is_end = is_end (h ! n),
         link_output = output (h ! n)\<rparr>"
    using f fr by (auto simp: rec_of_def link_of_def)
  then show ?thesis
    unfolding spec_record_def
    using walk_of_pth[OF inv n] walk_of_pth[OF inv f(1)] f(2) by blast
qed

lemma snapshot_char:
  assumes inv: "trie_inv h (root ac) S pth" and al: "all_links h (root ac) S pth"
  shows "\<exists>ls paths. get_failure_links_representation h ac = Some ls \<and>
           dfs_paths h (root ac) [] paths \<and> sorted paths \<and> distinct paths \<and>
           set paths = {p. walk h (root ac) p \<noteq> None} \<and>
           list_all2 (spec_record h (root ac)) paths ls"
proof -
  obtain M where M: "\<forall>n\<in>S. length (pth n) \<le> M" using trie_bound[OF inv] by blast
  have r: "root ac \<in> S" "pth (root ac) = []" using trie_root[OF inv] by auto
  obtain ns where tr: "\<forall>res. traverse h ac (root ac) (pth (root ac)) res
        = Some (res @ map (rec_of h ac S pth) ns)"
    and st: "subtree_list h S pth (root ac) ns"
    using traverse_char[OF inv M r(1)] by blast
  let ?paths = "map pth ns"
  let ?ls = "map (rec_of h ac S pth) ns"
  have 1: "get_failure_links_representation h ac = Some ?ls"
    using tr r(2) by (simp add: get_failure_links_representation_def)
  have nsS: "set ns = S" using st r(2) unfolding subtree_list_def by auto
  have 2: "dfs_paths h (root ac) [] ?paths" using st r(2) unfolding subtree_list_def by simp
  have "sorted_wrt (<) ?paths" using st unfolding subtree_list_def by blast
  then have 3: "sorted ?paths" "distinct ?paths" by (simp_all add: strict_sorted_iff)
  have 4: "set ?paths = {p. walk h (root ac) p \<noteq> None}"
  proof (intro equalityI subsetI)
    fix p assume "p \<in> set ?paths"
    then obtain n where "n \<in> S" "p = pth n" using nsS by auto
    then show "p \<in> {p. walk h (root ac) p \<noteq> None}" using walk_of_pth[OF inv] by auto
  next
    fix p assume "p \<in> {p. walk h (root ac) p \<noteq> None}"
    then obtain n where "walk h (root ac) p = Some n" by auto
    then have "n \<in> S" "pth n = p" using walk_root[OF inv] by auto
    then show "p \<in> set ?paths" using nsS by auto
  qed
  have 5: "list_all2 (spec_record h (root ac)) ?paths ?ls"
    using spec_record_rec_of[OF inv al] nsS
    by (simp add: list_all2_map1 list_all2_map2 list_all2_same)
  show ?thesis using 1 2 3 4 5 by blast
qed

subsection \<open>Moving a store\<close>

lemma shift_node_fields [simp]:
  "children (shift_node k n) = map (\<lambda>x. (fst x, snd x + k)) (children n)"
  "failure (shift_node k n) = map_option (\<lambda>a. a + k) (failure n)"
  "is_end (shift_node k n) = is_end n"
  "output (shift_node k n) = output n"
  "node_id (shift_node k n) = node_id n"
  by (simp_all add: shift_node_def)

lemma shift_node_updates:
  "shift_node k (n\<lparr>is_end := b\<rparr>) = (shift_node k n)\<lparr>is_end := b\<rparr>"
  "shift_node k (n\<lparr>output := out\<rparr>) = (shift_node k n)\<lparr>output := out\<rparr>"
  "shift_node k (n\<lparr>node_id := i\<rparr>) = (shift_node k n)\<lparr>node_id := i\<rparr>"
  "shift_node k (n\<lparr>failure := Some f\<rparr>) = (shift_node k n)\<lparr>failure := Some (f + k)\<rparr>"
  "shift_node k (n\<lparr>children := children n @ [(c, a)]\<rparr>)
     = (shift_node k n)\<lparr>children := children (shift_node k n) @ [(c, a + k)]\<rparr>"
  by (simp_all add: shift_node_def)

lemma shift_new_TrieNode [simp]: "shift_node k new_TrieNode = new_TrieNode"
  by (simp add: shift_node_def new_TrieNode_def)

lemma relocate_length [simp]: "length (relocate h0 H) = length H + length h0"
  by (simp add: relocate_def)

lemma relocate_nth [simp]:
  "a < length H \<Longrightarrow> relocate h0 H ! (a + length h0) = shift_node (length h0) (H ! a)"
  by (simp add: relocate_def nth_append)

lemma relocate_update:
  "a < length H \<Longrightarrow>
   (relocate h0 H)[a + length h0 := shift_node (length h0) v] = relocate h0 (H[a := v])"
  by (simp add: relocate_def list_update_append map_update)

lemma relocate_snoc:
  "relocate h0 H @ [shift_node (length h0) v] = relocate h0 (H @ [v])"
  by (simp add: relocate_def)

lemma map_of_shift:
  "map_of (map (\<lambda>x. (fst x, snd x + k)) xs) c = map_option (\<lambda>a. a + k) (map_of xs c)"
  by (induction xs) auto

lemma relocate_map_of:
  "a < length H \<Longrightarrow>
   map_of (children (relocate h0 H ! (a + length h0))) c
     = map_option (\<lambda>b. b + length h0) (map_of (children (H ! a)) c)"
  by (simp add: map_of_shift)

lemma closedD:
  assumes "closed H" "a < length H"
  shows "map_of (children (H ! a)) c = Some b \<Longrightarrow> b < length H"
    "failure (H ! a) = Some f \<Longrightarrow> f < length H"
proof -
  show "map_of (children (H ! a)) c = Some b \<Longrightarrow> b < length H"
    using assms unfolding closed_def by (force dest: map_of_SomeD)
  show "failure (H ! a) = Some f \<Longrightarrow> f < length H"
    using assms unfolding closed_def by blast
qed

lemma relocate_add_node:
  assumes "node < length H"
  shows "add_node (relocate h0 H) cnt (node + length h0) c = relocate h0 (add_node H cnt node c)"
proof -
  let ?k = "length h0"
  have "add_node (relocate h0 H) cnt (node + ?k) c =
      (relocate h0 H)[node + ?k :=
         shift_node ?k ((H ! node)\<lparr>children := children (H ! node) @ [(c, length H)]\<rparr>)]
      @ [shift_node ?k (new_TrieNode\<lparr>node_id := Some cnt\<rparr>)]"
    using assms by (simp add: add_node_def shift_node_updates)
  also have "\<dots> = relocate h0 (H[node := (H ! node)\<lparr>children := children (H ! node) @ [(c, length H)]\<rparr>])
      @ [shift_node ?k (new_TrieNode\<lparr>node_id := Some cnt\<rparr>)]"
    using assms by (simp only: relocate_update)
  also have "\<dots> = relocate h0 (add_node H cnt node c)"
    by (simp only: relocate_snoc add_node_def)
  finally show ?thesis .
qed

lemma closed_add_node:
  assumes "closed H" "node < length H"
  shows "closed (add_node H cnt node c)"
  unfolding closed_def
proof (intro allI impI)
  fix a assume a: "a < length (add_node H cnt node c)"
  have len: "length (add_node H cnt node c) = Suc (length H)" by (simp add: add_node_def)
  show "(\<forall>x\<in>set (children (add_node H cnt node c ! a)). snd x < length (add_node H cnt node c)) \<and>
        (\<forall>f. failure (add_node H cnt node c ! a) = Some f \<longrightarrow> f < length (add_node H cnt node c))"
  proof (cases "a = length H")
    case True
    then show ?thesis by (simp add: add_node_def nth_append new_TrieNode_def)
  next
    case False
    then have al: "a < length H" using a len by simp
    have old: "(\<forall>x\<in>set (children (H ! a)). snd x < length H) \<and>
        (\<forall>f. failure (H ! a) = Some f \<longrightarrow> f < length H)"
      using assms(1) al unfolding closed_def by blast
    show ?thesis
    proof (cases "a = node")
      case True
      then show ?thesis using old al len
        by (auto simp: add_node_def nth_append less_Suc_eq)
    next
      case False
      then show ?thesis using old al len
        by (auto simp: add_node_def nth_append less_Suc_eq)
    qed
  qed
qed

lemma closed_update_fields:
  assumes "closed H" "children v = children (H ! a)" "failure v = failure (H ! a)"
  shows "closed (H[a := v])"
  unfolding closed_def
proof (intro allI impI)
  fix b assume "b < length (H[a := v])"
  then have b: "b < length H" by simp
  have "children (H[a := v] ! b) = children (H ! b)" "failure (H[a := v] ! b) = failure (H ! b)"
    using assms(2,3) b by (cases "b = a"; simp)+
  then show "(\<forall>x\<in>set (children (H[a := v] ! b)). snd x < length (H[a := v])) \<and>
        (\<forall>f. failure (H[a := v] ! b) = Some f \<longrightarrow> f < length (H[a := v]))"
    using assms(1) b unfolding closed_def by simp
qed

lemma relocate_add_loop:
  assumes "closed H" "node < length H" "add_loop H cnt node cs = (H', cnt', node')"
  shows "add_loop (relocate h0 H) cnt (node + length h0) cs
           = (relocate h0 H', cnt', node' + length h0) \<and> closed H' \<and> node' < length H' \<and>
         length H \<le> length H'"
  using assms
proof (induction cs arbitrary: H cnt node)
  case Nil
  then show ?case by simp
next
  case (Cons c cs)
  let ?k = "length h0"
  show ?case
  proof (cases "map_of (children (H ! node)) c")
    case None
    then have n2: "map_of (children (relocate h0 H ! (node + ?k))) c = None"
      using Cons.prems(2) by (simp add: map_of_shift)
    have al: "add_loop (add_node H cnt node c) (cnt + 1) (length H) cs = (H', cnt', node')"
      using Cons.prems(3) add_loop_Cons_None[OF None Cons.prems(2)] by simp
    have c1: "closed (add_node H cnt node c)" using closed_add_node[OF Cons.prems(1,2)] .
    have l1: "length H < length (add_node H cnt node c)" by (simp add: add_node_def)
    have l2: "length H \<le> length H'"
      using Cons.IH[OF c1 l1 al] l1 by simp
    have "add_loop (relocate h0 H) cnt (node + ?k) (c # cs)
        = add_loop (add_node (relocate h0 H) cnt (node + ?k) c) (cnt + 1) (length (relocate h0 H)) cs"
      using add_loop_Cons_None[OF n2] Cons.prems(2) by simp
    also have "\<dots> = add_loop (relocate h0 (add_node H cnt node c)) (cnt + 1) (length H + ?k) cs"
      using relocate_add_node[OF Cons.prems(2)] by simp
    finally show ?thesis using Cons.IH[OF c1 l1 al] l2 by simp
  next
    case (Some a)
    have a: "a < length H" using closedD(1)[OF Cons.prems(1,2) Some] .
    have s2: "map_of (children (relocate h0 H ! (node + ?k))) c = Some (a + ?k)"
      using Cons.prems(2) Some by (simp add: map_of_shift)
    have al: "add_loop H cnt a cs = (H', cnt', node')" using Cons.prems(3) Some by simp
    have "add_loop (relocate h0 H) cnt (node + ?k) (c # cs)
        = add_loop (relocate h0 H) cnt (a + ?k) cs"
      using s2 by simp
    then show ?thesis using Cons.IH[OF Cons.prems(1) a al] by simp
  qed
qed

subsection \<open>Adding patterns in a moved store\<close>

lemma relocate_ac_fields [simp]:
  "root (relocate_ac h0 ac) = root ac + length h0"
  "node_counter (relocate_ac h0 ac) = node_counter ac"
  by (simp_all add: relocate_ac_def)

lemma relocate_ac_counter:
  "relocate_ac h0 (ac\<lparr>node_counter := c\<rparr>) = (relocate_ac h0 ac)\<lparr>node_counter := c\<rparr>"
  by (simp add: relocate_ac_def)

lemma relocate_add_pattern:
  assumes "closed H" "root ac < length H" "add_pattern H ac p = (H', ac')"
  shows "add_pattern (relocate h0 H) (relocate_ac h0 ac) p = (relocate h0 H', relocate_ac h0 ac')
         \<and> closed H' \<and> root ac' < length H'"
proof -
  let ?k = "length h0"
  obtain H1 cnt node where al: "add_loop H (node_counter ac) (root ac) p = (H1, cnt, node)"
    by (metis prod_cases3)
  have r: "add_loop (relocate h0 H) (node_counter ac) (root ac + ?k) p
        = (relocate h0 H1, cnt, node + ?k)" "closed H1" "node < length H1"
    "length H \<le> length H1"
    using relocate_add_loop[OF assms(1,2) al] by auto
  define H2 where "H2 = H1[node := (H1 ! node)\<lparr>is_end := True\<rparr>]"
  define H3 where "H3 = H2[node := (H2 ! node)\<lparr>output := output (H2 ! node) @ [p]\<rparr>]"
  have res: "H' = H3" "ac' = ac\<lparr>node_counter := cnt\<rparr>"
    using assms(3) al by (simp_all add: add_pattern_def Let_def H2_def H3_def)
  have n2: "node < length H2" using r(3) by (simp add: H2_def)
  have e2: "(relocate h0 H1)[node + ?k := (relocate h0 H1 ! (node + ?k))\<lparr>is_end := True\<rparr>]
      = relocate h0 H2"
    using r(3) by (simp add: H2_def relocate_update[symmetric] shift_node_updates)
  have e3: "(relocate h0 H2)[node + ?k := (relocate h0 H2 ! (node + ?k))
        \<lparr>output := output (relocate h0 H2 ! (node + ?k)) @ [p]\<rparr>] = relocate h0 H3"
    using n2 by (simp add: H3_def relocate_update[symmetric] shift_node_updates)
  have "add_pattern (relocate h0 H) (relocate_ac h0 ac) p
      = (relocate h0 H3, (relocate_ac h0 ac)\<lparr>node_counter := cnt\<rparr>)"
    unfolding add_pattern_def Let_def relocate_ac_fields r(1) prod.case e2 e3 ..
  moreover have "closed H2"
    unfolding H2_def by (rule closed_update_fields[OF r(2)]) simp_all
  then have "closed H3"
    unfolding H3_def by (rule closed_update_fields) simp_all
  moreover have "length H3 = length H1" by (simp add: H3_def H2_def)
  moreover have "root ac < length H1" using assms(2) r(4) by simp
  ultimately show ?thesis using res by (simp add: relocate_ac_counter)
qed

lemma relocate_add_patterns:
  assumes "closed H" "root ac < length H" "add_patterns H ac ps = (H', ac')"
  shows "add_patterns (relocate h0 H) (relocate_ac h0 ac) ps = (relocate h0 H', relocate_ac h0 ac')
         \<and> closed H' \<and> root ac' < length H'"
  using assms
proof (induction ps arbitrary: H ac)
  case Nil
  then show ?case by simp
next
  case (Cons p ps)
  obtain H1 ac1 where ap: "add_pattern H ac p = (H1, ac1)" by (cases "add_pattern H ac p")
  have 1: "add_pattern (relocate h0 H) (relocate_ac h0 ac) p = (relocate h0 H1, relocate_ac h0 ac1)"
    "closed H1" "root ac1 < length H1"
    using relocate_add_pattern[OF Cons.prems(1,2) ap] by auto
  have "add_patterns H1 ac1 ps = (H', ac')" using Cons.prems(3) ap by simp
  then show ?case using Cons.IH[OF 1(2,3)] 1(1) by simp
qed

lemma relocate_init:
  "init h0 = (relocate h0 (fst (init [])), relocate_ac h0 (snd (init [])))"
  "closed (fst (init []))" "root (snd (init [])) < length (fst (init []))"
  by (simp_all add: init_def Let_def relocate_def relocate_ac_def shift_node_def
      new_TrieNode_def closed_def)

subsection \<open>Failure links in a moved store\<close>

lemma closed_set_failure:
  assumes "closed H" "t < length H" "children v = children (H ! x)" "failure v = Some t"
  shows "closed (H[x := v])"
  unfolding closed_def
proof (intro allI impI)
  fix b assume "b < length (H[x := v])"
  then have b: "b < length H" by simp
  have old: "(\<forall>y\<in>set (children (H ! b)). snd y < length H) \<and>
        (\<forall>f. failure (H ! b) = Some f \<longrightarrow> f < length H)"
    using assms(1) b unfolding closed_def by blast
  show "(\<forall>y\<in>set (children (H[x := v] ! b)). snd y < length (H[x := v])) \<and>
        (\<forall>f. failure (H[x := v] ! b) = Some f \<longrightarrow> f < length (H[x := v]))"
  proof (cases "b = x")
    case True
    then show ?thesis using old b assms(2,3,4) by simp
  next
    case False
    then show ?thesis using old by simp
  qed
qed

lemma closed_link_child:
  assumes "closed H" "t < length H"
  shows "closed (link_child H x t)"
  unfolding link_child_def by (rule closed_set_failure[OF assms]) simp_all

lemma relocate_link_child:
  assumes "x < length H" "t < length H"
  shows "link_child (relocate h0 H) (x + length h0) (t + length h0) = relocate h0 (link_child H x t)"
proof -
  have "(relocate h0 H ! (x + length h0))
          \<lparr>failure := Some (t + length h0),
           output := output (relocate h0 H ! (x + length h0)) @ output (relocate h0 H ! (t + length h0))\<rparr>
        = shift_node (length h0) ((H ! x)\<lparr>failure := Some t, output := output (H ! x) @ output (H ! t)\<rparr>)"
    using assms by (simp add: shift_node_def)
  then show ?thesis
    unfolding link_child_def using relocate_update[OF assms(1)] by simp
qed

lemma relocate_failure_target:
  assumes "f < length H"
  shows "failure_target (relocate h0 H) (r + length h0) c (x + length h0) (f + length h0)
           = failure_target H r c x f + length h0"
  using assms by (simp add: failure_target_def map_of_shift split: option.splits)

lemma failure_target_lt:
  assumes "closed H" "f < length H" "r < length H"
  shows "failure_target H r c x f < length H"
  using assms closedD(1)[OF assms(1,2)]
  by (auto simp: failure_target_def split: option.splits)

lemma relocate_init_queue:
  assumes "closed H" "r < length H" "\<forall>x\<in>set ks. snd x < length H"
    "init_queue H r q ks = (H', q')"
  shows "init_queue (relocate h0 H) (r + length h0) (map (\<lambda>a. a + length h0) q)
           (map (\<lambda>x. (fst x, snd x + length h0)) ks)
         = (relocate h0 H', map (\<lambda>a. a + length h0) q') \<and>
         closed H' \<and> length H' = length H \<and> q' = q @ map snd ks"
  using assms
proof (induction ks arbitrary: H q)
  case Nil
  then show ?case by simp
next
  case (Cons a ks)
  let ?k = "length h0"
  obtain c x where a: "a = (c, x)" by (cases a)
  have x: "x < length H" using Cons.prems(3) a by simp
  let ?H1 = "H[x := (H ! x)\<lparr>failure := Some r\<rparr>]"
  have c1: "closed ?H1" by (rule closed_set_failure[OF Cons.prems(1,2)]) simp_all
  have r1: "r < length ?H1" using Cons.prems(2) by simp
  have k1: "\<forall>y\<in>set ks. snd y < length ?H1" using Cons.prems(3) by simp
  have i1: "init_queue ?H1 r (q @ [x]) ks = (H', q')" using Cons.prems(4) a by simp
  have e: "(relocate h0 H)[x + ?k := (relocate h0 H ! (x + ?k))\<lparr>failure := Some (r + ?k)\<rparr>]
      = relocate h0 ?H1"
    using x by (simp add: relocate_update[symmetric] shift_node_updates)
  have "init_queue (relocate h0 H) (r + ?k) (map (\<lambda>a. a + ?k) q)
           (map (\<lambda>x. (fst x, snd x + ?k)) (a # ks))
      = init_queue (relocate h0 ?H1) (r + ?k) (map (\<lambda>a. a + ?k) (q @ [x]))
           (map (\<lambda>x. (fst x, snd x + ?k)) ks)"
    unfolding a by (simp add: e)
  then show ?case using Cons.IH[OF c1 r1 k1 i1] a by simp
qed

lemma relocate_follow:
  assumes "follow fo H r c = Some y" "closed H" "\<forall>f. fo = Some f \<longrightarrow> f < length H"
  shows "follow (map_option (\<lambda>a. a + length h0) fo) (relocate h0 H) (r + length h0) c
           = Some (case y of Inl e \<Rightarrow> Inl e | Inr a \<Rightarrow> Inr (a + length h0)) \<and>
         (\<forall>cand. y = Inr cand \<longrightarrow> cand < length H)"
  using assms
proof (induction rule: follow.raw_induct[rotated, consumes 1, case_names step])
  case (step follow' fo H r c y)
  let ?k = "length h0"
  show ?case
  proof (cases fo)
    case None
    then have "y = Inl AttributeError" using step.hyps by simp
    then show ?thesis using None by (subst follow.simps) simp
  next
    case (Some f)
    then have f: "f < length H" using step.prems(2) by simp
    show ?thesis
    proof (cases "f \<noteq> r \<and> map_of (children (H ! f)) c = None")
      case True
      then have rec: "follow' (failure (H ! f)) H r c = Some y" using step.hyps Some by simp
      have "\<forall>g. failure (H ! f) = Some g \<longrightarrow> g < length H"
        using closedD(2)[OF step.prems(1) f] by blast
      then have ih: "follow (map_option (\<lambda>a. a + ?k) (failure (H ! f))) (relocate h0 H) (r + ?k) c
           = Some (case y of Inl e \<Rightarrow> Inl e | Inr a \<Rightarrow> Inr (a + ?k)) \<and> (\<forall>cand. y = Inr cand \<longrightarrow> cand < length H)"
        using step.IH[OF rec step.prems(1)] by blast
      have "follow (Some (f + ?k)) (relocate h0 H) (r + ?k) c
          = follow (failure (relocate h0 H ! (f + ?k))) (relocate h0 H) (r + ?k) c"
        using True f by (intro follow_next) (simp_all add: map_of_shift)
      then show ?thesis using ih Some f by simp
    next
      case False
      then have y: "y = Inr f" using step.hyps Some by auto
      have "f + ?k = r + ?k \<or> map_of (children (relocate h0 H ! (f + ?k))) c \<noteq> None"
        using False f by (auto simp: map_of_shift)
      then have "follow (Some (f + ?k)) (relocate h0 H) (r + ?k) c = Some (Inr (f + ?k))"
        by (rule follow_stop)
      then show ?thesis using y Some f by simp
    qed
  qed
qed

subsection \<open>The search in a moved store\<close>

lemma relocate_for_children:
  assumes "for_children H r q cur ks = Some y" "closed H" "r < length H" "cur < length H"
    "\<forall>x\<in>set ks. snd x < length H"
  shows "for_children (relocate h0 H) (r + length h0) (map (\<lambda>a. a + length h0) q)
           (cur + length h0) (map (\<lambda>x. (fst x, snd x + length h0)) ks)
         = Some (case y of Inl e \<Rightarrow> Inl e
                 | Inr z \<Rightarrow> Inr (relocate h0 (fst z), map (\<lambda>a. a + length h0) (snd z))) \<and>
         (\<forall>z. y = Inr z \<longrightarrow> closed (fst z) \<and> length (fst z) = length H \<and>
                 snd z = q @ map snd ks)"
  using assms
proof (induction ks arbitrary: H q)
  case Nil
  then show ?case by auto
next
  case (Cons a ks)
  let ?k = "length h0"
  obtain c x where a: "a = (c, x)" by (cases a)
  have x: "x < length H" using Cons.prems(5) a by simp
  have fo: "\<forall>f. failure (H ! cur) = Some f \<longrightarrow> f < length H"
    using closedD(2)[OF Cons.prems(2,4)] by blast
  have fr: "failure (relocate h0 H ! (cur + ?k)) = map_option (\<lambda>a. a + ?k) (failure (H ! cur))"
    using Cons.prems(4) by simp
  obtain w where w: "follow (failure (H ! cur)) H r c = Some w"
    using Cons.prems(1) unfolding a for_children_Cons by (auto split: option.splits)
  have rw: "follow (failure (relocate h0 H ! (cur + ?k))) (relocate h0 H) (r + ?k) c
      = Some (case w of Inl e \<Rightarrow> Inl e | Inr b \<Rightarrow> Inr (b + ?k))"
    "\<forall>cand. w = Inr cand \<longrightarrow> cand < length H"
    using relocate_follow[OF w Cons.prems(2) fo, of h0] fr by simp_all
  show ?case
  proof (cases w)
    case (Inl e)
    then have "y = Inl e" using Cons.prems(1) w unfolding a for_children_Cons by simp
    moreover have "for_children (relocate h0 H) (r + ?k) (map (\<lambda>a. a + ?k) q)
           (cur + ?k) (map (\<lambda>x. (fst x, snd x + ?k)) (a # ks)) = Some (Inl e)"
      using rw(1) Inl unfolding a by (simp add: for_children_Cons del: for_children.simps)
    ultimately show ?thesis by simp
  next
    case (Inr f)
    have f: "f < length H" using rw(2) Inr by simp
    let ?t = "failure_target H r c x f"
    let ?H1 = "link_child H x ?t"
    have t: "?t < length H" using failure_target_lt[OF Cons.prems(2) f Cons.prems(3)] .
    have rest: "for_children ?H1 r (q @ [x]) cur ks = Some y"
      using Cons.prems(1) w Inr unfolding a for_children_Cons by simp
    have c1: "closed ?H1" using closed_link_child[OF Cons.prems(2) t] .
    have l1: "length ?H1 = length H" by simp
    have ih: "for_children (relocate h0 ?H1) (r + ?k) (map (\<lambda>a. a + ?k) (q @ [x]))
           (cur + ?k) (map (\<lambda>x. (fst x, snd x + ?k)) ks)
         = Some (case y of Inl e \<Rightarrow> Inl e
                 | Inr z \<Rightarrow> Inr (relocate h0 (fst z), map (\<lambda>a. a + ?k) (snd z))) \<and>
         (\<forall>z. y = Inr z \<longrightarrow> closed (fst z) \<and> length (fst z) = length ?H1 \<and>
                 snd z = (q @ [x]) @ map snd ks)"
      using Cons.IH[OF rest c1] Cons.prems(3,4,5) l1 by simp
    have "for_children (relocate h0 H) (r + ?k) (map (\<lambda>a. a + ?k) q)
           (cur + ?k) (map (\<lambda>x. (fst x, snd x + ?k)) (a # ks))
        = for_children (link_child (relocate h0 H) (x + ?k)
              (failure_target (relocate h0 H) (r + ?k) c (x + ?k) (f + ?k)))
            (r + ?k) (map (\<lambda>a. a + ?k) q @ [x + ?k]) (cur + ?k)
            (map (\<lambda>x. (fst x, snd x + ?k)) ks)"
      using rw(1) Inr unfolding a by (simp add: for_children_Cons del: for_children.simps)
    also have "\<dots> = for_children (relocate h0 ?H1) (r + ?k) (map (\<lambda>a. a + ?k) (q @ [x]))
           (cur + ?k) (map (\<lambda>x. (fst x, snd x + ?k)) ks)"
      using relocate_failure_target[OF f, of h0 r c x] relocate_link_child[OF x t, of h0] by simp
    finally show ?thesis using ih l1 a by simp
  qed
qed

lemma relocate_bfs:
  assumes "bfs H r q = Some y" "closed H" "r < length H" "\<forall>a\<in>set q. a < length H"
  shows "bfs (relocate h0 H) (r + length h0) (map (\<lambda>a. a + length h0) q)
           = Some (case y of Inl e \<Rightarrow> Inl e | Inr H' \<Rightarrow> Inr (relocate h0 H')) \<and>
         (\<forall>H'. y = Inr H' \<longrightarrow> closed H' \<and> length H' = length H)"
  using assms
proof (induction rule: bfs.raw_induct[rotated, consumes 1, case_names step])
  case (step bfs' H r q y)
  let ?k = "length h0"
  show ?case
  proof (cases q)
    case Nil
    then have "y = Inr H" using step.hyps by simp
    then show ?thesis using Nil step.prems(1) by (simp add: bfs_Nil)
  next
    case (Cons cur q0)
    have cur: "cur < length H" using step.prems(3) Cons by simp
    have kids: "\<forall>x\<in>set (children (H ! cur)). snd x < length H"
      using step.prems(1) cur unfolding closed_def by blast
    obtain w where w: "for_children H r q0 cur (children (H ! cur)) = Some w"
      using step.hyps Cons by (auto split: option.splits)
    have rw: "for_children (relocate h0 H) (r + ?k) (map (\<lambda>a. a + ?k) q0)
           (cur + ?k) (map (\<lambda>x. (fst x, snd x + ?k)) (children (H ! cur)))
         = Some (case w of Inl e \<Rightarrow> Inl e
                 | Inr z \<Rightarrow> Inr (relocate h0 (fst z), map (\<lambda>a. a + ?k) (snd z)))"
      "\<forall>z. w = Inr z \<longrightarrow> closed (fst z) \<and> length (fst z) = length H \<and>
                 snd z = q0 @ map snd (children (H ! cur))"
      using relocate_for_children[OF w step.prems(1,2) cur kids, of h0] by simp_all
    have ch: "children (relocate h0 H ! (cur + ?k)) = map (\<lambda>x. (fst x, snd x + ?k)) (children (H ! cur))"
      using cur by simp
    show ?thesis
    proof (cases w)
      case (Inl e)
      then have "y = Inl e" using step.hyps Cons w by simp
      moreover have "bfs (relocate h0 H) (r + ?k) (map (\<lambda>a. a + ?k) q) = Some (Inl e)"
        using rw(1) Inl Cons ch by (simp add: bfs_Cons)
      ultimately show ?thesis by simp
    next
      case (Inr z)
      obtain H1 q1 where z: "z = (H1, q1)" by (cases z)
      have b: "bfs' H1 r q1 = Some y" using step.hyps Cons w Inr z by simp
      have c1: "closed H1" and l1: "length H1 = length H"
        and q1: "q1 = q0 @ map snd (children (H ! cur))"
        using rw(2) Inr z by auto
      have r1: "r < length H1" using step.prems(2) l1 by simp
      have a1: "\<forall>a\<in>set q1. a < length H1"
        using step.prems(3) Cons kids q1 l1 by auto
      have ih: "bfs (relocate h0 H1) (r + ?k) (map (\<lambda>a. a + ?k) q1)
           = Some (case y of Inl e \<Rightarrow> Inl e | Inr H' \<Rightarrow> Inr (relocate h0 H')) \<and>
         (\<forall>H'. y = Inr H' \<longrightarrow> closed H' \<and> length H' = length H1)"
        using step.IH[OF b c1 r1 a1] .
      have "bfs (relocate h0 H) (r + ?k) (map (\<lambda>a. a + ?k) q)
          = bfs (relocate h0 H1) (r + ?k) (map (\<lambda>a. a + ?k) q1)"
        using rw(1) Inr z Cons ch by (simp add: bfs_Cons)
      then show ?thesis using ih l1 by simp
    qed
  qed
qed

lemma relocate_build_failure_links:
  assumes "build_failure_links H ac = Some y" "closed H" "root ac < length H"
  shows "build_failure_links (relocate h0 H) (relocate_ac h0 ac)
           = Some (case y of Inl e \<Rightarrow> Inl e | Inr H' \<Rightarrow> Inr (relocate h0 H')) \<and>
         (\<forall>H'. y = Inr H' \<longrightarrow> closed H' \<and> length H' = length H)"
proof -
  let ?k = "length h0"
  let ?r = "root ac"
  obtain H1 q where i: "init_queue H ?r [] (children (H ! ?r)) = (H1, q)"
    by (cases "init_queue H ?r [] (children (H ! ?r))")
  have kids: "\<forall>x\<in>set (children (H ! ?r)). snd x < length H"
    using assms(2,3) unfolding closed_def by blast
  have ri: "init_queue (relocate h0 H) (?r + ?k) (map (\<lambda>a. a + ?k) [])
           (map (\<lambda>x. (fst x, snd x + ?k)) (children (H ! ?r)))
         = (relocate h0 H1, map (\<lambda>a. a + ?k) q)"
    "closed H1" "length H1 = length H" "q = [] @ map snd (children (H ! ?r))"
    using relocate_init_queue[OF assms(2,3) kids i, of h0] by auto
  have b: "bfs H1 ?r q = Some y" using assms(1) i by (simp add: build_failure_links_def)
  have r1: "?r < length H1" using assms(3) ri(3) by simp
  have a1: "\<forall>a\<in>set q. a < length H1" using kids ri(3,4) by auto
  have rb: "bfs (relocate h0 H1) (?r + ?k) (map (\<lambda>a. a + ?k) q)
           = Some (case y of Inl e \<Rightarrow> Inl e | Inr H' \<Rightarrow> Inr (relocate h0 H'))"
    "\<forall>H'. y = Inr H' \<longrightarrow> closed H' \<and> length H' = length H1"
    using relocate_bfs[OF b ri(2) r1 a1, of h0] by simp_all
  have "build_failure_links (relocate h0 H) (relocate_ac h0 ac)
      = bfs (relocate h0 H1) (?r + ?k) (map (\<lambda>a. a + ?k) q)"
    using ri(1) assms(3) by (simp add: build_failure_links_def)
  then show ?thesis using rb ri(3) by simp
qed

lemma relocate_build_automaton:
  assumes "build_automaton [] ps = Some (Inr (H, ac))"
  shows "build_automaton h0 ps = Some (Inr (relocate h0 H, relocate_ac h0 ac)) \<and>
         closed H \<and> root ac < length H"
proof -
  obtain Hi aci where i: "init [] = (Hi, aci)" by (cases "init []")
  obtain H1 ac1 where ap: "add_patterns Hi aci ps = (H1, ac1)" by (cases "add_patterns Hi aci ps")
  have ci: "closed Hi" "root aci < length Hi" "init h0 = (relocate h0 Hi, relocate_ac h0 aci)"
    using relocate_init(1)[of h0] relocate_init(2,3) i by simp_all
  have rp: "add_patterns (relocate h0 Hi) (relocate_ac h0 aci) ps
        = (relocate h0 H1, relocate_ac h0 ac1)" "closed H1" "root ac1 < length H1"
    using relocate_add_patterns[OF ci(1,2) ap] by auto
  have b: "build_failure_links H1 ac1 = Some (Inr H)" and ac: "ac = ac1"
    using assms i ap by (auto simp: build_automaton_def split: option.splits sum.splits)
  have rb: "build_failure_links (relocate h0 H1) (relocate_ac h0 ac1) = Some (Inr (relocate h0 H))"
    "closed H" "length H = length H1"
    using relocate_build_failure_links[OF b rp(2,3), of h0] by simp_all
  have "build_automaton h0 ps = Some (Inr (relocate h0 H, relocate_ac h0 ac1))"
    using ci(3) rp(1) rb(1) by (simp add: build_automaton_def)
  then show ?thesis using ac rb(2,3) rp(3) by simp
qed

lemma relocate_walk:
  assumes "closed H"
  shows "n < length H \<Longrightarrow>
         walk (relocate h0 H) (n + length h0) p = map_option (\<lambda>a. a + length h0) (walk H n p)"
proof (induction p arbitrary: n)
  case Nil
  then show ?case by simp
next
  case (Cons c p)
  show ?case
  proof (cases "map_of (children (H ! n)) c")
    case None
    then show ?thesis using Cons.prems by (simp add: map_of_shift)
  next
    case (Some b)
    then have "b < length H" using closedD(1)[OF assms Cons.prems] by blast
    then show ?thesis using Some Cons.prems Cons.IH[of b] by (simp add: map_of_shift)
  qed
qed

lemma walk_lt:
  assumes "closed H"
  shows "n < length H \<Longrightarrow> walk H n p = Some m \<Longrightarrow> m < length H"
proof (induction p arbitrary: n)
  case Nil
  then show ?case by simp
next
  case (Cons c p)
  then obtain b where b: "map_of (children (H ! n)) c = Some b" "walk H b p = Some m"
    by (auto split: option.splits)
  have "b < length H" using closedD(1)[OF assms Cons.prems(1) b(1)] .
  then show ?case using Cons.IH b(2) by blast
qed

subsection \<open>Agreement of two automatons\<close>

lemma relocated_path_of:
  assumes cl: "closed H" and r: "root ac < length H" and f: "f < length H"
    and inv: "trie_inv (relocate h0 H) (root ac + length h0) S pth"
    and fS: "f + length h0 \<in> S"
  shows "get_path_to_node (relocate h0 H) (relocate_ac h0 ac) (f + length h0)
           = Some (if f = root ac then ''ROOT'' else pth (f + length h0)) \<and>
         walk H (root ac) (pth (f + length h0)) = Some f"
proof -
  let ?k = "length h0"
  have inv': "trie_inv (relocate h0 H) (root (relocate_ac h0 ac)) S pth" using inv by simp
  have 1: "get_path_to_node (relocate h0 H) (relocate_ac h0 ac) (f + ?k)
           = Some (if f = root ac then ''ROOT'' else pth (f + ?k))"
    using get_path_to_node_trie[OF inv', of "f + ?k"] fS by simp
  have "walk (relocate h0 H) (root ac + ?k) (pth (f + ?k)) = Some (f + ?k)"
    using walk_of_pth[OF inv fS] .
  then have "map_option (\<lambda>a. a + ?k) (walk H (root ac) (pth (f + ?k))) = Some (f + ?k)"
    using relocate_walk[OF cl r] by simp
  then have "walk H (root ac) (pth (f + ?k)) = Some f" by auto
  then show ?thesis using 1 by simp
qed

lemma relocated_agree:
  assumes b0: "build_automaton [] ps = Some (Inr (H, ac))"
  shows "build_automaton h0 ps = Some (Inr (relocate h0 H, relocate_ac h0 ac)) \<and>
         build_automaton h0' ps = Some (Inr (relocate h0' H, relocate_ac h0' ac)) \<and>
         same_at_path (relocate h0 H) (relocate_ac h0 ac) (relocate h0' H) (relocate_ac h0' ac) p"
proof -
  let ?k1 = "length h0" and ?k2 = "length h0'"
  let ?h1 = "relocate h0 H" and ?h2 = "relocate h0' H"
  let ?r = "root ac"
  have b1: "build_automaton h0 ps = Some (Inr (?h1, relocate_ac h0 ac))"
    and cl: "closed H" and r: "?r < length H"
    using relocate_build_automaton[OF b0, of h0] by auto
  have b2: "build_automaton h0' ps = Some (Inr (?h2, relocate_ac h0' ac))"
    using relocate_build_automaton[OF b0, of h0'] by auto
  obtain S1 pth1 where i1: "trie_inv ?h1 (?r + ?k1) S1 pth1"
    and a1: "all_links ?h1 (?r + ?k1) S1 pth1"
    using build_automaton_trie[of h0 ps] b1 by auto
  obtain S2 pth2 where i2: "trie_inv ?h2 (?r + ?k2) S2 pth2"
    and a2: "all_links ?h2 (?r + ?k2) S2 pth2"
    using build_automaton_trie[of h0' ps] b2 by auto
  have w1: "walk ?h1 (?r + ?k1) q = map_option (\<lambda>a. a + ?k1) (walk H ?r q)" for q
    using relocate_walk[OF cl r] .
  have w2: "walk ?h2 (?r + ?k2) q = map_option (\<lambda>a. a + ?k2) (walk H ?r q)" for q
    using relocate_walk[OF cl r] .
  have "same_at_path ?h1 (relocate_ac h0 ac) ?h2 (relocate_ac h0' ac) p"
  proof (cases "walk H ?r p")
    case None
    then show ?thesis by (simp add: same_at_path_def w1 w2)
  next
    case (Some n)
    have n: "n < length H" using walk_lt[OF cl r Some] .
    have n1: "n + ?k1 \<in> S1" using walk_root(1)[OF i1, of p "n + ?k1"] w1[of p] Some by simp
    have n2: "n + ?k2 \<in> S2" using walk_root(1)[OF i2, of p "n + ?k2"] w2[of p] Some by simp
    obtain g1 where g1: "g1 \<in> S1" "failure (?h1 ! (n + ?k1)) = Some g1"
      using a1 n1 trie_root[OF i1] unfolding all_links_def
      by (cases "n + ?k1 = ?r + ?k1") auto
    then obtain f where f: "failure (H ! n) = Some f" "g1 = f + ?k1" using n by auto
    have fl: "f < length H" using closedD(2)[OF cl n f(1)] .
    have fS1: "f + ?k1 \<in> S1" using g1(1) f(2) by simp
    have p1: "get_path_to_node ?h1 (relocate_ac h0 ac) (f + ?k1)
           = Some (if f = ?r then ''ROOT'' else pth1 (f + ?k1))"
      and wq: "walk H ?r (pth1 (f + ?k1)) = Some f"
      using relocated_path_of[OF cl r fl i1 fS1] by auto
    have "walk ?h2 (?r + ?k2) (pth1 (f + ?k1)) = Some (f + ?k2)" using w2 wq by simp
    then have fS2: "f + ?k2 \<in> S2" and pe: "pth2 (f + ?k2) = pth1 (f + ?k1)"
      using walk_root[OF i2] by auto
    have p2: "get_path_to_node ?h2 (relocate_ac h0' ac) (f + ?k2)
           = Some (if f = ?r then ''ROOT'' else pth2 (f + ?k2))"
      using relocated_path_of[OF cl r fl i2 fS2] by auto
    have "map fst (map (\<lambda>x. (fst x, snd x + ?k1)) (children (H ! n)))
        = map fst (map (\<lambda>x. (fst x, snd x + ?k2)) (children (H ! n)))"
      by simp
    then show ?thesis
      using Some n f fl p1 p2 pe by (simp add: same_at_path_def w1 w2)
  qed
  then show ?thesis using b1 b2 by simp
qed

section \<open>Scenario A\<close>

text \<open>
  Claim C8. In every store, after inserting "he", "she", "his" in that order into a fresh
  automaton and building the failure links, the node at path "he" is terminal with output
  ["he"], and the node at path "she" has the node at "he" as its failure link and output
  ["she", "he"].
\<close>

theorem scenario_A_he_she_his:
  "\<exists>h ac he she.
     build_automaton h0 [''he'', ''she'', ''his''] = Some (Inr (h, ac)) \<and>
     walk h (root ac) ''he'' = Some he \<and> walk h (root ac) ''she'' = Some she \<and>
     is_end (h ! he) \<and> output (h ! he) = [''he''] \<and>
     failure (h ! she) = Some he \<and> output (h ! she) = [''she'', ''he'']"
proof -
  let ?ps = "[''he'', ''she'', ''his'']"
  let ?k = "length h0"
  obtain H ac where b0: "build_automaton [] ?ps = Some (Inr (H, ac))"
    using build_automaton_trie[of "[]" ?ps] by blast
  have "case build_automaton [] ?ps of
          Some (Inr (h, ac)) \<Rightarrow>
            (case (walk h (root ac) ''he'', walk h (root ac) ''she'') of
               (Some he, Some she) \<Rightarrow>
                  is_end (h ! he) \<and> output (h ! he) = [''he''] \<and>
                  failure (h ! she) = Some he \<and> output (h ! she) = [''she'', ''he'']
             | _ \<Rightarrow> False)
        | _ \<Rightarrow> False"
    by code_simp
  then obtain he she where
    w: "walk H (root ac) ''he'' = Some he" "walk H (root ac) ''she'' = Some she"
    and e: "is_end (H ! he)" "output (H ! he) = [''he'']"
    and f: "failure (H ! she) = Some he" "output (H ! she) = [''she'', ''he'']"
    unfolding b0 by (auto split: option.splits)
  have b: "build_automaton h0 ?ps = Some (Inr (relocate h0 H, relocate_ac h0 ac))"
    and cl: "closed H" and r: "root ac < length H"
    using relocate_build_automaton[OF b0, of h0] by auto
  have l: "he < length H" "she < length H"
    using walk_lt[OF cl r w(1)] walk_lt[OF cl r w(2)] by auto
  have "walk (relocate h0 H) (root (relocate_ac h0 ac)) ''he'' = Some (he + ?k)"
    and "walk (relocate h0 H) (root (relocate_ac h0 ac)) ''she'' = Some (she + ?k)"
    using relocate_walk[OF cl r, of h0 "''he''"] relocate_walk[OF cl r, of h0 "''she''"]
    unfolding w by (simp_all del: walk.simps)
  moreover have "is_end (relocate h0 H ! (he + ?k))"
    and "output (relocate h0 H ! (he + ?k)) = [''he'']"
    and "failure (relocate h0 H ! (she + ?k)) = Some (he + ?k)"
    and "output (relocate h0 H ! (she + ?k)) = [''she'', ''he'']"
    using l e f by simp_all
  ultimately show ?thesis using b by blast
qed

section \<open>Failure links point to shallower nodes\<close>

text \<open>
  Claim C4. For every initial store and every list of patterns, building the automaton
  returns; afterwards the root's failure link is the root, and the failure link of every
  other node of the trie is a node of the trie whose path from the root is strictly
  shorter than the node's own path.
\<close>

theorem failure_depth_decreases:
  "\<exists>h ac. build_automaton h0 ps = Some (Inr (h, ac)) \<and>
     failure (h ! root ac) = Some (root ac) \<and>
     (\<forall>p n. walk h (root ac) p = Some n \<and> n \<noteq> root ac \<longrightarrow>
        (\<exists>q f. failure (h ! n) = Some f \<and> walk h (root ac) q = Some f \<and>
               length q < length p))"
proof -
  obtain h ac h' S pth k where
    b: "build_automaton h0 ps = Some (Inr (h', ac))"
    and bi: "bfs_inv h h' (root ac) S pth k (S - {root ac})"
    using build_automaton_inv[of h0 ps] by blast
  have inv: "trie_inv h' (root ac) S pth" using bi unfolding bfs_inv_def by blast
  have al: "all_links h' (root ac) S pth" using bfs_inv_all_links[OF bi] .
  have "\<exists>q f. failure (h' ! n) = Some f \<and> walk h' (root ac) q = Some f \<and> length q < length p"
    if w: "walk h' (root ac) p = Some n" and nr: "n \<noteq> root ac" for p n
  proof -
    have n: "n \<in> S" "pth n = p" using walk_root[OF inv w] by auto
    then obtain f where f: "f \<in> S" "failure (h' ! n) = Some f" "length (pth f) < length (pth n)"
      using al nr unfolding all_links_def by blast
    then show ?thesis using walk_of_pth[OF inv f(1)] n(2) by blast
  qed
  then show ?thesis using b al unfolding all_links_def by blast
qed

theorem failure_depth_decreases_witness:
  "\<exists>h ac n q f. build_automaton [] [''he'', ''she''] = Some (Inr (h, ac)) \<and>
     walk h (root ac) ''she'' = Some n \<and> n \<noteq> root ac \<and>
     failure (h ! n) = Some f \<and> walk h (root ac) q = Some f \<and> length q < length ''she''"
proof -
  obtain h ac where b: "build_automaton [] [''he'', ''she''] = Some (Inr (h, ac))"
    and a: "\<forall>p n. walk h (root ac) p = Some n \<and> n \<noteq> root ac \<longrightarrow>
        (\<exists>q f. failure (h ! n) = Some f \<and> walk h (root ac) q = Some f \<and>
               length q < length p)"
    using failure_depth_decreases[of "[]" "[''he'', ''she'']"] by blast
  have "case build_automaton [] [''he'', ''she''] of
          Some (Inr (h, ac)) \<Rightarrow> walk h (root ac) ''she'' = Some 5 \<and> 5 \<noteq> root ac
        | _ \<Rightarrow> False"
    by code_simp
  then have "walk h (root ac) ''she'' = Some 5 \<and> 5 \<noteq> root ac" using b by simp
  then show ?thesis using a b by blast
qed

section \<open>Output lists contain the failure node's output\<close>

text \<open>
  Claim C5. For every initial store and every list of non-empty patterns, building the
  automaton returns, and afterwards every node of the trie has a failure node whose output
  patterns all occur in the node's own output.
\<close>

theorem output_superset_of_failure_output:
  assumes "[] \<notin> set ps"
  shows "\<exists>h ac. build_automaton h0 ps = Some (Inr (h, ac)) \<and>
     (\<forall>p n. walk h (root ac) p = Some n \<longrightarrow>
        (\<exists>f. failure (h ! n) = Some f \<and> set (output (h ! f)) \<subseteq> set (output (h ! n))))"
proof -
  obtain h ac h' S pth k where
    b: "build_automaton h0 ps = Some (Inr (h', ac))"
    and bi: "bfs_inv h h' (root ac) S pth k (S - {root ac})"
    and o: "[] \<notin> set ps \<longrightarrow> output (h ! root ac) = []"
    using build_automaton_inv[of h0 ps] by blast
  have inv: "trie_inv h' (root ac) S pth" using bi unfolding bfs_inv_def by blast
  have o': "output (h ! root ac) = []" using o assms by simp
  have "\<exists>f. failure (h' ! n) = Some f \<and> set (output (h' ! f)) \<subseteq> set (output (h' ! n))"
    if w: "walk h' (root ac) p = Some n" for p n
    using final_superset[OF bi o'] walk_root(1)[OF inv w] by blast
  then show ?thesis using b by blast
qed

theorem output_superset_of_failure_output_witness:
  "[] \<notin> set [''he'', ''she''] \<and>
   (\<exists>h ac n f. build_automaton [] [''he'', ''she''] = Some (Inr (h, ac)) \<and>
      walk h (root ac) ''she'' = Some n \<and> failure (h ! n) = Some f \<and>
      set (output (h ! f)) \<subseteq> set (output (h ! n)))"
proof -
  have ne: "[] \<notin> set [''he'', ''she'']" by simp
  obtain h ac where b: "build_automaton [] [''he'', ''she''] = Some (Inr (h, ac))"
    and a: "\<forall>p n. walk h (root ac) p = Some n \<longrightarrow>
        (\<exists>f. failure (h ! n) = Some f \<and> set (output (h ! f)) \<subseteq> set (output (h ! n)))"
    using output_superset_of_failure_output[OF ne, of "[]"] by blast
  have "case build_automaton [] [''he'', ''she''] of
          Some (Inr (h, ac)) \<Rightarrow> walk h (root ac) ''she'' = Some 5
        | _ \<Rightarrow> False"
    by code_simp
  then have "walk h (root ac) ''she'' = Some 5" using b by simp
  then show ?thesis using a b ne by blast
qed

section \<open>The rule that chooses a failure link\<close>

text \<open>
  Claim C7. For every initial store and every list of patterns, building the automaton
  returns, and afterwards the failure link of every child node is the one the rule
  describes: start the candidate at the parent's failure node, follow failure links while
  the candidate is not the root and has no child for the character, then take the
  candidate's child for the character if it exists and is not the child itself, and the
  root otherwise. No node but the root is its own failure link.
\<close>

theorem failure_link_follows_rule:
  "\<exists>h ac. build_automaton h0 ps = Some (Inr (h, ac)) \<and>
     (\<forall>p c cur child.
        walk h (root ac) p = Some cur \<and> walk h (root ac) (p @ [c]) = Some child \<longrightarrow>
        (\<exists>start cand. failure (h ! cur) = Some start \<and>
            spec_candidate h (root ac) c start cand \<and>
            failure (h ! child) = Some (spec_failure h (root ac) c child cand))) \<and>
     (\<forall>p n. walk h (root ac) p = Some n \<and> n \<noteq> root ac \<longrightarrow> failure (h ! n) \<noteq> Some n)"
proof -
  obtain h ac h' S pth k where
    b: "build_automaton h0 ps = Some (Inr (h', ac))"
    and bi: "bfs_inv h h' (root ac) S pth k (S - {root ac})"
    using build_automaton_inv[of h0 ps] by blast
  have inv: "trie_inv h' (root ac) S pth" using bi unfolding bfs_inv_def by blast
  have al: "all_links h' (root ac) S pth" using bfs_inv_all_links[OF bi] .
  have 1: "\<exists>start cand. failure (h' ! cur) = Some start \<and>
            spec_candidate h' (root ac) c start cand \<and>
            failure (h' ! child) = Some (spec_failure h' (root ac) c child cand)"
    if w: "walk h' (root ac) p = Some cur" "walk h' (root ac) (p @ [c]) = Some child"
    for p c cur child
  proof -
    have cur: "cur \<in> S" using walk_root(1)[OF inv w(1)] .
    obtain cand where c: "follow (failure (h' ! cur)) h' (root ac) c = Some (Inr cand)"
      "failure (h' ! child) = Some (failure_target h' (root ac) c child cand)"
      using final_step[OF bi cur walk_step[OF w]] by blast
    obtain start where "failure (h' ! cur) = Some start"
      "spec_candidate h' (root ac) c start cand"
      using follow_spec[OF c(1) refl] by blast
    then show ?thesis using c(2) failure_target_spec by auto
  qed
  have 2: "failure (h' ! n) \<noteq> Some n"
    if w: "walk h' (root ac) p = Some n" and nr: "n \<noteq> root ac" for p n
  proof -
    have "n \<in> S" using walk_root(1)[OF inv w] .
    then obtain f where "failure (h' ! n) = Some f" "length (pth f) < length (pth n)"
      using al nr unfolding all_links_def by blast
    then show ?thesis by auto
  qed
  show ?thesis using b 1 2 by blast
qed

theorem failure_link_follows_rule_witness:
  "\<exists>h ac cur child start cand.
     build_automaton [] [''he'', ''she''] = Some (Inr (h, ac)) \<and>
     walk h (root ac) ''sh'' = Some cur \<and> walk h (root ac) (''sh'' @ [CHR ''e'']) = Some child \<and>
     child \<noteq> root ac \<and> failure (h ! cur) = Some start \<and>
     spec_candidate h (root ac) CHR ''e'' start cand \<and>
     failure (h ! child) = Some (spec_failure h (root ac) CHR ''e'' child cand) \<and>
     failure (h ! child) \<noteq> Some child"
proof -
  obtain h ac where b: "build_automaton [] [''he'', ''she''] = Some (Inr (h, ac))"
    and a1: "\<forall>p c cur child.
        walk h (root ac) p = Some cur \<and> walk h (root ac) (p @ [c]) = Some child \<longrightarrow>
        (\<exists>start cand. failure (h ! cur) = Some start \<and>
            spec_candidate h (root ac) c start cand \<and>
            failure (h ! child) = Some (spec_failure h (root ac) c child cand))"
    and a2: "\<forall>p n. walk h (root ac) p = Some n \<and> n \<noteq> root ac \<longrightarrow> failure (h ! n) \<noteq> Some n"
    using failure_link_follows_rule[of "[]" "[''he'', ''she'']"] by blast
  have "case build_automaton [] [''he'', ''she''] of
          Some (Inr (h, ac)) \<Rightarrow>
            walk h (root ac) ''sh'' = Some 4 \<and> walk h (root ac) (''sh'' @ [CHR ''e'']) = Some 5 \<and>
            5 \<noteq> root ac
        | _ \<Rightarrow> False"
    by code_simp
  then have w: "walk h (root ac) ''sh'' = Some 4" "walk h (root ac) (''sh'' @ [CHR ''e'']) = Some 5"
    "5 \<noteq> root ac"
    using b by simp_all
  obtain start cand where "failure (h ! 4) = Some start"
    "spec_candidate h (root ac) CHR ''e'' start cand"
    "failure (h ! 5) = Some (spec_failure h (root ac) CHR ''e'' 5 cand)"
    using a1 w(1,2) by blast
  moreover have "failure (h ! 5) \<noteq> Some 5" using a2 w(2,3) by blast
  ultimately show ?thesis using b w by blast
qed

section \<open>What building the failure links leaves alone\<close>

text \<open>
  Claim C10. Whenever \<open>build_failure_links\<close> returns, on any store and automaton, the
  store has the same nodes with the same children dictionaries, terminal flags and node
  ids as before; and on an automaton made by the constructor and \<open>add_pattern\<close> it does
  return. The automaton's \<open>node_counter\<close> is not in the store and the operation does
  not return a new automaton value, so it is the same afterwards.
\<close>

theorem build_failure_links_frame:
  "(build_failure_links h ac = Some (Inr h') \<longrightarrow>
      length h' = length h \<and> map children h' = map children h \<and>
      map is_end h' = map is_end h \<and> map node_id h' = map node_id h) \<and>
   (\<exists>h1. build_failure_links (fst (add_patterns (fst (init h0)) (snd (init h0)) ps))
            (snd (add_patterns (fst (init h0)) (snd (init h0)) ps)) = Some (Inr h1))"
proof -
  have 1: "length h' = length h \<and> map children h' = map children h \<and>
      map is_end h' = map is_end h \<and> map node_id h' = map node_id h"
    if "build_failure_links h ac = Some (Inr h')"
  proof -
    have s: "shape_eq h h'" using build_failure_links_shape[OF that] .
    then have "length h' = length h" unfolding shape_eq_def by (metis length_map)
    then show ?thesis using s unfolding shape_eq_def by simp
  qed
  obtain hb acb hb' where "add_patterns (fst (init h0)) (snd (init h0)) ps = (hb, acb)"
    "build_failure_links hb acb = Some (Inr hb')"
    using build_automaton_inv[of h0 ps] by blast
  then have "\<exists>h1. build_failure_links (fst (add_patterns (fst (init h0)) (snd (init h0)) ps))
            (snd (add_patterns (fst (init h0)) (snd (init h0)) ps)) = Some (Inr h1)"
    by simp
  then show ?thesis using 1 by blast
qed

theorem build_failure_links_frame_witness:
  "\<exists>h ac h'. add_patterns (fst (init [])) (snd (init [])) [''he'', ''she''] = (h, ac) \<and>
     build_failure_links h ac = Some (Inr h') \<and>
     length h' = length h \<and> map children h' = map children h \<and>
     map is_end h' = map is_end h \<and> map node_id h' = map node_id h"
proof -
  obtain h ac where ap: "add_patterns (fst (init [])) (snd (init [])) [''he'', ''she''] = (h, ac)"
    by (cases "add_patterns (fst (init [])) (snd (init [])) [''he'', ''she'']")
  have "case add_patterns (fst (init [])) (snd (init [])) [''he'', ''she''] of
          (h, ac) \<Rightarrow> (case build_failure_links h ac of Some (Inr h') \<Rightarrow> True | _ \<Rightarrow> False)"
    by code_simp
  then obtain h' where b: "build_failure_links h ac = Some (Inr h')"
    using ap by (auto split: option.splits sum.splits)
  show ?thesis
    using build_failure_links_frame[of h ac h' "[]" "[]"] ap b by blast
qed

section \<open>Inserting the empty pattern\<close>

text \<open>
  Claim C1, as stated: inserting the empty pattern fails and leaves the root's terminal
  flag and output unchanged. It does not hold: on the automaton holding the pattern "a",
  \<open>add_pattern\<close> with the empty pattern returns and changes the root's terminal flag
  and output.
\<close>

theorem empty_pattern_changes_root:
  "\<not> (case init [] of (h0, ac0) \<Rightarrow>
        case add_patterns h0 ac0 [''a''] of (h, ac) \<Rightarrow>
        case add_pattern h ac [] of (h', ac') \<Rightarrow>
          is_end (h' ! root ac') = is_end (h ! root ac) \<and>
          output (h' ! root ac') = output (h ! root ac))"
  by code_simp

text \<open>
  Claim C1, amended. On every automaton made by the constructor and \<open>add_pattern\<close>,
  inserting the empty pattern returns without failing and without allocating a node: it
  sets the root's terminal flag, appends the empty pattern to the root's output, and
  leaves the automaton value and every other field of every node as they were.
\<close>

theorem empty_pattern_marks_root:
  "\<exists>h ac h'. add_patterns (fst (init h0)) (snd (init h0)) ps = (h, ac) \<and>
     add_pattern h ac [] = (h', ac) \<and> length h' = length h \<and>
     is_end (h' ! root ac) \<and> output (h' ! root ac) = output (h ! root ac) @ [[]] \<and>
     map children h' = map children h \<and> map failure h' = map failure h \<and>
     map node_id h' = map node_id h"
proof -
  obtain h ac where ap: "add_patterns (fst (init h0)) (snd (init h0)) ps = (h, ac)"
    by (cases "add_patterns (fst (init h0)) (snd (init h0)) ps")
  have rl: "root ac < length h" using built_root_lt[OF ap] .
  define h1 where "h1 = h[root ac := (h ! root ac)\<lparr>is_end := True\<rparr>]"
  define h' where "h' = h1[root ac := (h1 ! root ac)\<lparr>output := output (h1 ! root ac) @ [[]]\<rparr>]"
  have e: "add_pattern h ac [] = (h', ac)"
    by (simp add: add_pattern_def Let_def h'_def h1_def)
  have m1: "map children h1 = map children h" "map failure h1 = map failure h"
    "map node_id h1 = map node_id h"
    unfolding h1_def by (rule map_update_same, simp)+
  have m2: "map children h' = map children h1" "map failure h' = map failure h1"
    "map node_id h' = map node_id h1"
    unfolding h'_def by (rule map_update_same, simp)+
  have "length h' = length h" by (simp add: h'_def h1_def)
  moreover have "is_end (h' ! root ac)" using rl by (simp add: h'_def h1_def)
  moreover have "output (h' ! root ac) = output (h ! root ac) @ [[]]"
    using rl by (simp add: h'_def h1_def)
  ultimately show ?thesis using ap e m1 m2 by auto
qed

section \<open>Building the failure links twice\<close>

text \<open>
  Claim C2, as stated: a second \<open>build_failure_links\<close> is rejected or leaves every
  failure link and output as the first left them. It does not hold: on the automaton of
  "he" and "she" the second call returns a store, and that store's output lists differ
  from those after the first call.
\<close>

theorem second_build_changes_output:
  "\<not> (case build_automaton [] [''he'', ''she''] of
        Some (Inr (h, ac)) \<Rightarrow>
          (case build_failure_links h ac of
             Some (Inr h') \<Rightarrow> map failure h' = map failure h \<and> map output h' = map output h
           | _ \<Rightarrow> True)
      | _ \<Rightarrow> True)"
  by code_simp

text \<open>
  Claim C2, amended. On every automaton built from any pattern list, a second
  \<open>build_failure_links\<close> is not rejected: it returns, and leaves every node's failure
  link, children, terminal flag and node id as the first call left them. Every node's
  output holds the same patterns as after the first call, as a set; the lists themselves
  need not be equal.
\<close>

theorem second_build_keeps_links:
  "\<exists>h ac h2. build_automaton h0 ps = Some (Inr (h, ac)) \<and>
     build_failure_links h ac = Some (Inr h2) \<and>
     map failure h2 = map failure h \<and> map children h2 = map children h \<and>
     map is_end h2 = map is_end h \<and> map node_id h2 = map node_id h \<and>
     map (\<lambda>n. set (output n)) h2 = map (\<lambda>n. set (output n)) h"
proof -
  obtain h ac h1 S pth k where
    b: "build_automaton h0 ps = Some (Inr (h1, ac))"
    and b1: "bfs_inv h h1 (root ac) S pth k (S - {root ac})"
    using build_automaton_inv[of h0 ps] by blast
  obtain h2 k2 where r: "build_failure_links h1 ac = Some (Inr h2)"
    and b2: "bfs_inv h1 h2 (root ac) S pth k2 (S - {root ac})"
    using rebuild_total[OF b1] by blast
  have "frame_inv h1 h2 S" using b2 unfolding bfs_inv_def by blast
  then have "map children h2 = map children h1" "map is_end h2 = map is_end h1"
    "map node_id h2 = map node_id h1"
    unfolding frame_inv_def by blast+
  then show ?thesis
    using b r rebuild_same_links[OF b1 b2] rebuild_same_output_sets[OF b1 b2] by blast
qed

section \<open>The path to a node that is not in the trie\<close>

text \<open>
  Claim C3, as stated: asking for the path to a node that does not belong to the
  automaton fails with a NodeNotFound condition instead of returning a default that can
  mislead. It does not hold: for a node created after the automaton and never attached to
  it, \<open>get_path_to_node\<close> returns the string "UNKNOWN", which is also what it
  returns for the genuine node reached by the pattern "UNKNOWN".
\<close>

theorem foreign_node_path_is_a_string:
  "(case init [] of (h0, ac0) \<Rightarrow>
      case add_patterns h0 ac0 [''UNKNOWN''] of (h, ac) \<Rightarrow>
        get_path_to_node (h @ [new_TrieNode]) ac (length h) = Some ''UNKNOWN'' \<and>
        (case walk (h @ [new_TrieNode]) (root ac) ''UNKNOWN'' of
           Some n \<Rightarrow> n \<noteq> length h \<and>
                     get_path_to_node (h @ [new_TrieNode]) ac n = Some ''UNKNOWN''
         | None \<Rightarrow> False))"
  by code_simp

text \<open>
  Claim C3, amended. On every automaton built from any pattern list, and whatever nodes
  are created afterwards, asking for the path to a node that no path of the trie reaches
  does not fail: \<open>get_path_to_node\<close> returns the string "UNKNOWN".
\<close>

theorem foreign_node_path_UNKNOWN:
  "\<exists>h ac. build_automaton h0 ps = Some (Inr (h, ac)) \<and>
     (\<forall>xs t. (\<forall>p. walk (h @ xs) (root ac) p \<noteq> Some t) \<longrightarrow>
        get_path_to_node (h @ xs) ac t = Some ''UNKNOWN'')"
proof -
  obtain h ac S pth where b: "build_automaton h0 ps = Some (Inr (h, ac))"
    and inv: "trie_inv h (root ac) S pth"
    using build_automaton_trie[of h0 ps] by blast
  have "get_path_to_node (h @ xs) ac t = Some ''UNKNOWN''"
    if no: "\<forall>p. walk (h @ xs) (root ac) p \<noteq> Some t" for xs t
  proof -
    have inv': "trie_inv (h @ xs) (root ac) S pth" using trie_inv_append[OF inv] .
    have "t \<notin> S" using trie_nodes_walk[OF inv'] no by blast
    moreover have "t \<noteq> root ac" using no walk.simps(1)[of "h @ xs" "root ac"] by metis
    ultimately show ?thesis using get_path_to_node_trie[OF inv'] by simp
  qed
  then show ?thesis using b by blast
qed

theorem foreign_node_path_UNKNOWN_witness:
  "\<exists>h ac. build_automaton [new_TrieNode] [''a''] = Some (Inr (h, ac)) \<and>
     (\<forall>p. walk (h @ []) (root ac) p \<noteq> Some 0) \<and>
     get_path_to_node (h @ []) ac 0 = Some ''UNKNOWN''"
proof -
  obtain h ac where b: "build_automaton [new_TrieNode] [''a''] = Some (Inr (h, ac))"
    and a: "\<forall>xs t. (\<forall>p. walk (h @ xs) (root ac) p \<noteq> Some t) \<longrightarrow>
        get_path_to_node (h @ xs) ac t = Some ''UNKNOWN''"
    using foreign_node_path_UNKNOWN[of "[new_TrieNode]" "[''a'']"] by blast
  have "build_automaton [new_TrieNode] [''a''] = Some (Inr
    ([\<lparr>children = [], is_end = False, failure = None, output = [], node_id = None\<rparr>,
      \<lparr>children = [(CHR ''a'', 2)], is_end = False, failure = Some 1, output = [],
         node_id = Some 0\<rparr>,
      \<lparr>children = [], is_end = True, failure = Some 1, output = [''a''],
         node_id = Some 1\<rparr>],
     \<lparr>root = 1, node_counter = 2\<rparr>))"
    by code_simp
  then have h: "h = [\<lparr>children = [], is_end = False, failure = None, output = [], node_id = None\<rparr>,
      \<lparr>children = [(CHR ''a'', 2)], is_end = False, failure = Some 1, output = [],
         node_id = Some 0\<rparr>,
      \<lparr>children = [], is_end = True, failure = Some 1, output = [''a''],
         node_id = Some 1\<rparr>]"
    and ac: "ac = \<lparr>root = 1, node_counter = 2\<rparr>"
    using b by simp_all
  have nw: "walk (h @ []) (root ac) p \<noteq> Some 0" for p
    unfolding h ac by (cases p; cases "tl p") (auto split: if_splits)
  then have "get_path_to_node (h @ []) ac 0 = Some ''UNKNOWN''" using a by blast
  then show ?thesis using b nw by blast
qed

section \<open>The snapshot\<close>

text \<open>
  Claim C9. For every initial store and every list of patterns, the snapshot of the built
  automaton returns a list of records that matches, record by record, a list of paths
  which is the depth-first order from the root with children taken in
  sorted-by-character order (\<open>dfs_paths\<close>, written from the specification's words).
  That list has every path of the trie exactly once and is in ascending lexicographic
  order of the strings. The record at a path carries the node's id, the path ("ROOT"
  for the root), the id and the path of the node's failure node, the terminal flag and
  the node's output list as stored (\<open>spec_record\<close>).
\<close>

theorem snapshot_depth_first_sorted:
  "\<exists>h ac ls paths. build_automaton h0 ps = Some (Inr (h, ac)) \<and>
     get_failure_links_representation h ac = Some ls \<and>
     dfs_paths h (root ac) [] paths \<and> sorted paths \<and> distinct paths \<and>
     set paths = {p. walk h (root ac) p \<noteq> None} \<and>
     list_all2 (spec_record h (root ac)) paths ls"
proof -
  obtain h ac S pth where b: "build_automaton h0 ps = Some (Inr (h, ac))"
    and inv: "trie_inv h (root ac) S pth" and al: "all_links h (root ac) S pth"
    using build_automaton_trie[of h0 ps] by blast
  show ?thesis using snapshot_char[OF inv al] b by blast
qed

section \<open>Determinism\<close>

text \<open>
  Claim C6. Building an automaton from the same ordered pattern list in any two stores
  returns in both, with the same node counter, and the two automatons agree at every path
  (\<open>same_at_path\<close>): a node exists at the path in both or in neither, and the two nodes
  have the same node id, the same children keys, the same terminal flag and output, and
  failure nodes with the same node id at the same path. The addresses of the nodes
  differ; nothing the automaton shows depends on them.
\<close>

theorem build_is_deterministic:
  "\<exists>h1 ac1 h2 ac2. build_automaton h0 ps = Some (Inr (h1, ac1)) \<and>
     build_automaton h0' ps = Some (Inr (h2, ac2)) \<and>
     node_counter ac1 = node_counter ac2 \<and>
     (\<forall>p. same_at_path h1 ac1 h2 ac2 p)"
proof -
  obtain H ac where b0: "build_automaton [] ps = Some (Inr (H, ac))"
    using build_automaton_trie[of "[]" ps] by blast
  have "node_counter (relocate_ac h0 ac) = node_counter (relocate_ac h0' ac)" by simp
  then show ?thesis using relocated_agree[OF b0, of h0 h0'] by blast
qed

end
